theory Spec2Isabelle
  imports Complex_Main
begin

section \<open>Spherical-geometry primitives of \<^verbatim>\<open>utils/utils.py\<close>\<close>

text \<open>
  The module is numpy code over double-precision floats. The embedding takes the value
  of every arithmetic operation to be the exact real result, and keeps the three
  effects of the double format that decide whether the code returns and whether what it
  returns is finite: an in-place addition that cannot change its operand (absorption),
  the gradual underflow of a square, and the overflow of a sum of squares.
  numpy scalars (\<^verbatim>\<open>np.float64\<close>) are immutable values; numpy arrays are mutable
  objects that live in a store and are passed by reference, because \<^verbatim>\<open>sphadj\<close>
  updates its arguments with \<^verbatim>\<open>+=\<close> and with masked assignment.
\<close>

subsection \<open>Outcomes that are not ordinary values\<close>

text \<open>
  \<^item> \<open>ValueError\<close>: operands could not be broadcast together;
  \<^item> \<open>IndexError\<close>: a boolean mask does not fit the indexed object;
  \<^item> \<open>TypeError\<close>: item assignment on a numpy scalar;
  \<^item> \<open>NonFinite\<close>: not an exception; numpy returns \<^verbatim>\<open>nan\<close> or \<^verbatim>\<open>inf\<close> (division by
    zero, \<^verbatim>\<open>arccos\<close> outside \<open>[-1, 1]\<close>, a norm whose sum of squares overflows), which no
    real number represents.
\<close>

datatype error = ValueError | IndexError | TypeError | NonFinite

subsection \<open>Library functions of Python and numpy\<close>

text \<open>Python's \<^verbatim>\<open>a % b\<close> on floats: the remainder has the sign of the divisor.\<close>

definition py_fmod :: "real \<Rightarrow> real \<Rightarrow> real" where
  "py_fmod a b = a - b * of_int \<lfloor>a / b\<rfloor>"

text \<open>
  \<^verbatim>\<open>np.arctan2(y, x)\<close>: the angle of the point \<open>(x, y)\<close>, in \<open>(-pi, pi]\<close>, and 0 at the
  origin. Floats have a negative zero, on which \<^verbatim>\<open>arctan2\<close> differs; reals have none.
\<close>

definition arctan2 :: "real \<Rightarrow> real \<Rightarrow> real" where
  "arctan2 y x =
     (if 0 < x then arctan (y / x)
      else if x < 0 then (if 0 \<le> y then arctan (y / x) + pi else arctan (y / x) - pi)
      else if 0 < y then pi / 2
      else if y < 0 then - (pi / 2)
      else 0)"

definition np_arccos :: "real \<Rightarrow> error + real" where
  "np_arccos x = (if - 1 \<le> x \<and> x \<le> 1 then Inr (arccos x) else Inl NonFinite)"

definition np_div :: "real \<Rightarrow> real \<Rightarrow> error + real" where
  "np_div a b = (if b = 0 then Inl NonFinite else Inr (a / b))"

subsection \<open>What is kept of double precision\<close>

text \<open>Rounding to the nearest integer, ties to the even one.\<close>

definition rne :: "real \<Rightarrow> int" where
  "rne r = (let n = \<lfloor>r\<rfloor> in
     if r - of_int n < 1 / 2 then n
     else if 1 / 2 < r - of_int n then n + 1
     else if even n then n else n + 1)"

text \<open>
  The double nearest to a real of the finite range: 53 significant bits, the exponent
  not below \<open>-1022\<close> (below it the doubles are the multiples of \<open>2 ^ -1074\<close>).
\<close>

definition fl :: "real \<Rightarrow> real" where
  "fl r = (if r = 0 then 0
     else (let q = 2 powr (of_int (max \<lfloor>log 2 \<bar>r\<bar>\<rfloor> (- 1022)) - 52)
           in of_int (rne (r / q)) * q))"

text \<open>
  \<^verbatim>\<open>x += c\<close> on one entry. Where the double sum is the double that \<open>x\<close> already is, the
  entry stays as it is, however often the statement is repeated; elsewhere the sum is
  taken exactly.
\<close>

definition fadd :: "real \<Rightarrow> real \<Rightarrow> real" where
  "fadd x c = (if fl (x + c) = fl x then x else x + c)"

text \<open>
  \<^verbatim>\<open>x * x\<close> as \<^verbatim>\<open>la.norm\<close> forms it: below \<open>2 ^ -1022\<close> the product is rounded to a multiple
  of \<open>2 ^ -1074\<close>, possibly to 0.
\<close>

definition sq_d :: "real \<Rightarrow> real" where
  "sq_d x = (if x * x < 1 / 2 ^ 1022 then of_int (rne (x * x * 2 ^ 1074)) / 2 ^ 1074 else x * x)"

text \<open>
  The Euclidean norm of a vector over the reals: what the claims mean by the norm, and
  what \<^verbatim>\<open>la.norm\<close> returns where no square underflows and the sum does not overflow. The
  computation itself is \<open>la_norm\<close> below.
\<close>

definition norm3 :: "real \<times> real \<times> real \<Rightarrow> real" where
  "norm3 v = (case v of (x, y, z) \<Rightarrow> sqrt (x\<^sup>2 + y\<^sup>2 + z\<^sup>2))"

text \<open>
  \<^verbatim>\<open>la.norm(vec, axis=-1)\<close> of one row: the square root of the sum of the squares. A sum
  that reaches \<open>2 ^ 1024 - 2 ^ 970\<close>, half a step above the largest double, is \<^verbatim>\<open>inf\<close>, and so
  is the norm.
\<close>

definition la_norm :: "real \<times> real \<times> real \<Rightarrow> error + real" where
  "la_norm v = (case v of (x, y, z) \<Rightarrow>
     (let s = sq_d x + sq_d y + sq_d z
      in if 2 ^ 1024 - 2 ^ 970 \<le> s then Inl NonFinite else Inr (sqrt s)))"

subsection \<open>Values without identity: a scalar or a one-dimensional array\<close>

datatype nd = Sc real | Ar "real list"

fun nd_map :: "(real \<Rightarrow> real) \<Rightarrow> nd \<Rightarrow> nd" where
  "nd_map f (Sc a) = Sc (f a)"
| "nd_map f (Ar xs) = Ar (map f xs)"

text \<open>numpy's broadcasting of a binary operation over scalars and 1-d arrays.\<close>

definition bc_list :: "(real \<Rightarrow> real \<Rightarrow> real) \<Rightarrow> real list \<Rightarrow> real list \<Rightarrow> error + real list" where
  "bc_list f xs ys =
     (if length xs = length ys then Inr (map2 f xs ys)
      else if length xs = 1 then Inr (map (f (hd xs)) ys)
      else if length ys = 1 then Inr (map (\<lambda>x. f x (hd ys)) xs)
      else Inl ValueError)"

fun broadcast2 :: "(real \<Rightarrow> real \<Rightarrow> real) \<Rightarrow> nd \<Rightarrow> nd \<Rightarrow> error + nd" where
  "broadcast2 f (Sc a) (Sc b) = Inr (Sc (f a b))"
| "broadcast2 f (Sc a) (Ar ys) = Inr (Ar (map (f a) ys))"
| "broadcast2 f (Ar xs) (Sc b) = Inr (Ar (map (\<lambda>x. f x b) xs))"
| "broadcast2 f (Ar xs) (Ar ys) =
     (case bc_list f xs ys of Inl e \<Rightarrow> Inl e | Inr zs \<Rightarrow> Inr (Ar zs))"

subsection \<open>\<^verbatim>\<open>angle_between\<close>\<close>

definition angle_between :: "nd \<Rightarrow> nd \<Rightarrow> bool \<Rightarrow> error + nd" where
  "angle_between ang1 ang2 sign =
     (case broadcast2 (\<lambda>a b. a - b) ang1 ang2 of
        Inl e \<Rightarrow> Inl e
      | Inr s \<Rightarrow>
          (let d = nd_map (\<lambda>x. py_fmod (x + pi) (2 * pi) - pi) s
           in Inr (if \<not> sign then nd_map abs d else d)))"

subsection \<open>Direction vectors and packed spherical coordinates\<close>

text \<open>
  The arrays that \<^verbatim>\<open>vec2sph\<close> takes and returns, and that \<^verbatim>\<open>sph2vec\<close> takes in its packed
  call form: one flat array of three components, or a batch of shape \<open>(N, 3)\<close>, given
  by its rows. The last axis has length three by type. The other call forms of
  \<^verbatim>\<open>sph2vec\<close> (separate \<open>theta\<close>, \<open>phi\<close>, \<open>rho\<close>; a packed pair with \<open>rho = 1\<close>) form the same
  three products and are left out, as are \<^verbatim>\<open>rotation_matrix\<close> and \<^verbatim>\<open>azirot\<close>.
\<close>

type_synonym vec3 = "real \<times> real \<times> real"

datatype vecs = Single vec3 | Batch "vec3 list"

subsection \<open>\<^verbatim>\<open>sph2vec\<close>, packed call form (\<^verbatim>\<open>phi is None\<close>)\<close>

definition sph2vec_row :: "vec3 \<Rightarrow> vec3" where
  "sph2vec_row s = (case s of (theta, phi, rho) \<Rightarrow>
     (rho * (sin phi * cos theta), rho * (cos phi * cos theta), rho * sin theta))"

fun sph2vec :: "vecs \<Rightarrow> vecs" where
  "sph2vec (Single s) = Single (sph2vec_row s)"
| "sph2vec (Batch rows) = Batch (map sph2vec_row rows)"

subsection \<open>The store of numpy arrays\<close>

type_synonym addr = nat

record heap =
  cells :: "addr \<Rightarrow> real list"
  next_free :: addr

datatype pyval = Scalar real | Array addr

text \<open>The entries of a value; a scalar has one.\<close>

definition contents :: "heap \<Rightarrow> pyval \<Rightarrow> real list" where
  "contents h v = (case v of Scalar x \<Rightarrow> [x] | Array a \<Rightarrow> cells h a)"

text \<open>\<^verbatim>\<open>c - v\<close>: a new object.\<close>

definition rsub_new :: "real \<Rightarrow> heap \<Rightarrow> pyval \<Rightarrow> heap \<times> pyval" where
  "rsub_new c h v =
     (case v of
        Scalar x \<Rightarrow> (h, Scalar (c - x))
      | Array a \<Rightarrow>
          (h\<lparr>cells := (cells h)(next_free h := map (\<lambda>x. c - x) (cells h a)),
             next_free := Suc (next_free h)\<rparr>,
           Array (next_free h)))"

text \<open>\<^verbatim>\<open>v += c\<close>: rebinds a scalar, updates an array in place.\<close>

definition iadd :: "real \<Rightarrow> heap \<Rightarrow> pyval \<Rightarrow> heap \<times> pyval" where
  "iadd c h v =
     (case v of
        Scalar x \<Rightarrow> (h, Scalar (fadd x c))
      | Array a \<Rightarrow> (h\<lparr>cells := (cells h)(a := map (\<lambda>x. fadd x c) (cells h a))\<rparr>, Array a))"

text \<open>
  The value \<open>v\<close> once its entries have become \<open>xs\<close>: a scalar is rebound, an array is
  overwritten in place. Used to state what an in-place operation has done.
\<close>

definition put :: "heap \<Rightarrow> pyval \<Rightarrow> real list \<Rightarrow> heap \<times> pyval" where
  "put h v xs =
     (case v of
        Scalar x \<Rightarrow> (h, Scalar (hd xs))
      | Array a \<Rightarrow> (h\<lparr>cells := (cells h)(a := xs)\<rparr>, Array a))"

text \<open>\<^verbatim>\<open>arr[mask] = f(arr[mask])\<close> on the array at an address.\<close>

definition update_where :: "bool list \<Rightarrow> (real \<Rightarrow> real) \<Rightarrow> heap \<Rightarrow> addr \<Rightarrow> error + heap" where
  "update_where msk f h a =
     (if length msk = length (cells h a)
      then Inr (h\<lparr>cells := (cells h)(a := map2 (\<lambda>m x. if m then f x else x) msk (cells h a))\<rparr>)
      else Inl IndexError)"

text \<open>\<^verbatim>\<open>np.all(phi)\<close>: every entry is nonzero; \<^verbatim>\<open>np.all(None)\<close> is false.\<close>

definition np_all :: "heap \<Rightarrow> pyval option \<Rightarrow> bool" where
  "np_all h phi = (case phi of None \<Rightarrow> False | Some p \<Rightarrow> list_all (\<lambda>x. x \<noteq> 0) (contents h p))"

subsection \<open>\<^verbatim>\<open>sphadj\<close>: the elevation block\<close>

text \<open>\<^verbatim>\<open>if np.all(phi): phi += np.pi\<close>\<close>

definition shift_all :: "heap \<Rightarrow> pyval option \<Rightarrow> heap \<times> pyval option" where
  "shift_all h phi =
     (case phi of
        None \<Rightarrow> (h, None)
      | Some p \<Rightarrow>
          if np_all h phi then (case iadd pi h p of (h', p') \<Rightarrow> (h', Some p'))
          else (h, phi))"

text \<open>
  \<^verbatim>\<open>if np.all(phi): phi[mask] += np.pi\<close>, where the mask is a 1-d boolean array. A numpy
  scalar cannot be indexed by it.
\<close>

definition shift_where :: "bool list \<Rightarrow> heap \<Rightarrow> pyval option \<Rightarrow> error + heap" where
  "shift_where msk h phi =
     (case phi of
        None \<Rightarrow> Inr h
      | Some p \<Rightarrow>
          if np_all h phi
          then (case p of
                  Scalar x \<Rightarrow> Inl IndexError
                | Array b \<Rightarrow> update_where msk (\<lambda>x. fadd x pi) h b)
          else Inr h)"

text \<open>
  Lines 103 to 118. In the two masked branches the mask for \<open>phi\<close> is evaluated on
  \<open>theta\<close> as it is after the masked assignment to \<open>theta\<close>.
\<close>

definition sphadj_theta ::
  "heap \<Rightarrow> pyval \<Rightarrow> pyval option \<Rightarrow> real \<Rightarrow> real \<Rightarrow> error + heap \<times> pyval \<times> pyval option" where
  "sphadj_theta h theta phi theta_min theta_max =
     (if list_all (\<lambda>t. theta_max \<le> t) (contents h theta) then
        (case rsub_new pi h theta of (h1, theta1) \<Rightarrow>
           (case shift_all h1 phi of (h2, phi2) \<Rightarrow> Inr (h2, theta1, phi2)))
      else if list_all (\<lambda>t. t < theta_min) (contents h theta) then
        (case rsub_new (- pi) h theta of (h1, theta1) \<Rightarrow>
           (case shift_all h1 phi of (h2, phi2) \<Rightarrow> Inr (h2, theta1, phi2)))
      else if list_ex (\<lambda>t. theta_max \<le> t) (contents h theta) then
        (case theta of
           Scalar t \<Rightarrow> Inl TypeError
         | Array a \<Rightarrow>
             (case update_where (map (\<lambda>t. theta_max \<le> t) (cells h a)) (\<lambda>t. pi - t) h a of
                Inl e \<Rightarrow> Inl e
              | Inr h1 \<Rightarrow>
                  (case shift_where (map (\<lambda>t. theta_max \<le> t) (cells h1 a)) h1 phi of
                     Inl e \<Rightarrow> Inl e
                   | Inr h2 \<Rightarrow> Inr (h2, theta, phi))))
      else if list_ex (\<lambda>t. t < theta_min) (contents h theta) then
        (case theta of
           Scalar t \<Rightarrow> Inl TypeError
         | Array a \<Rightarrow>
             (case update_where (map (\<lambda>t. t < theta_min) (cells h a)) (\<lambda>t. - pi - t) h a of
                Inl e \<Rightarrow> Inl e
              | Inr h1 \<Rightarrow>
                  (case shift_where (map (\<lambda>t. t < theta_min) (cells h1 a)) h1 phi of
                     Inl e \<Rightarrow> Inl e
                   | Inr h2 \<Rightarrow> Inr (h2, theta, phi))))
      else Inr (h, theta, phi))"

subsection \<open>\<^verbatim>\<open>sphadj\<close>: the azimuth block, four loops\<close>

text \<open>\<^verbatim>\<open>while (phi < phi_min).all(): phi += 2 * np.pi\<close>\<close>

partial_function (option) azi_up_all :: "real \<Rightarrow> heap \<Rightarrow> pyval \<Rightarrow> (heap \<times> pyval) option" where
  "azi_up_all phi_min h phi =
     (if list_all (\<lambda>x. x < phi_min) (contents h phi)
      then azi_up_all phi_min (fst (iadd (2 * pi) h phi)) (snd (iadd (2 * pi) h phi))
      else Some (h, phi))"

text \<open>\<^verbatim>\<open>while (phi >= phi_max).all(): phi -= 2 * np.pi\<close>\<close>

partial_function (option) azi_down_all :: "real \<Rightarrow> heap \<Rightarrow> pyval \<Rightarrow> (heap \<times> pyval) option" where
  "azi_down_all phi_max h phi =
     (if list_all (\<lambda>x. phi_max \<le> x) (contents h phi)
      then azi_down_all phi_max (fst (iadd (- (2 * pi)) h phi)) (snd (iadd (- (2 * pi)) h phi))
      else Some (h, phi))"

text \<open>\<^verbatim>\<open>while (phi < phi_min).any(): phi[phi < phi_min] += 2 * np.pi\<close>\<close>

partial_function (option) azi_up_any ::
  "real \<Rightarrow> heap \<Rightarrow> pyval \<Rightarrow> (error + heap \<times> pyval) option" where
  "azi_up_any phi_min h phi =
     (if list_ex (\<lambda>x. x < phi_min) (contents h phi)
      then (case phi of
              Scalar x \<Rightarrow> Some (Inl TypeError)
            | Array a \<Rightarrow>
                (case update_where (map (\<lambda>x. x < phi_min) (cells h a))
                        (\<lambda>x. fadd x (2 * pi)) h a of
                   Inl e \<Rightarrow> Some (Inl e)
                 | Inr h' \<Rightarrow> azi_up_any phi_min h' phi))
      else Some (Inr (h, phi)))"

text \<open>\<^verbatim>\<open>while (phi >= phi_max).any(): phi[phi >= phi_max] -= 2 * np.pi\<close>\<close>

partial_function (option) azi_down_any ::
  "real \<Rightarrow> heap \<Rightarrow> pyval \<Rightarrow> (error + heap \<times> pyval) option" where
  "azi_down_any phi_max h phi =
     (if list_ex (\<lambda>x. phi_max \<le> x) (contents h phi)
      then (case phi of
              Scalar x \<Rightarrow> Some (Inl TypeError)
            | Array a \<Rightarrow>
                (case update_where (map (\<lambda>x. phi_max \<le> x) (cells h a))
                        (\<lambda>x. fadd x (- (2 * pi))) h a of
                   Inl e \<Rightarrow> Some (Inl e)
                 | Inr h' \<Rightarrow> azi_down_any phi_max h' phi))
      else Some (Inr (h, phi)))"

text \<open>Lines 121 to 128. \<open>None\<close> is a run that never leaves one of the loops.\<close>

definition sphadj_phi ::
  "heap \<Rightarrow> pyval \<Rightarrow> real \<Rightarrow> real \<Rightarrow> (error + heap \<times> pyval) option" where
  "sphadj_phi h phi phi_min phi_max =
     (case azi_up_all phi_min h phi of
        None \<Rightarrow> None
      | Some (h1, phi1) \<Rightarrow>
          (case azi_down_all phi_max h1 phi1 of
             None \<Rightarrow> None
           | Some (h2, phi2) \<Rightarrow>
               (case azi_up_any phi_min h2 phi2 of
                  None \<Rightarrow> None
                | Some (Inl e) \<Rightarrow> Some (Inl e)
                | Some (Inr (h3, phi3)) \<Rightarrow> azi_down_any phi_max h3 phi3)))"

subsection \<open>\<^verbatim>\<open>sphadj\<close>, \<^verbatim>\<open>eleadj\<close>, \<^verbatim>\<open>aziadj\<close>\<close>

definition sphadj ::
  "heap \<Rightarrow> pyval option \<Rightarrow> pyval option \<Rightarrow> real \<Rightarrow> real \<Rightarrow> real \<Rightarrow> real
     \<Rightarrow> (error + heap \<times> pyval option \<times> pyval option) option" where
  "sphadj h theta phi theta_min theta_max phi_min phi_max =
     (case (case theta of
              None \<Rightarrow> Inr (h, None, phi)
            | Some t \<Rightarrow>
                (case sphadj_theta h t phi theta_min theta_max of
                   Inl e \<Rightarrow> Inl e
                 | Inr (h1, t1, phi1) \<Rightarrow> Inr (h1, Some t1, phi1))) of
        Inl e \<Rightarrow> Some (Inl e)
      | Inr (h1, theta1, phi1) \<Rightarrow>
          (case phi1 of
             None \<Rightarrow> Some (Inr (h1, theta1, None))
           | Some p \<Rightarrow>
               (case sphadj_phi h1 p phi_min phi_max of
                  None \<Rightarrow> None
                | Some (Inl e) \<Rightarrow> Some (Inl e)
                | Some (Inr (h2, p2)) \<Rightarrow> Some (Inr (h2, theta1, Some p2)))))"

text \<open>The call with the default bounds of the signature.\<close>

definition sphadj_default ::
  "heap \<Rightarrow> pyval option \<Rightarrow> pyval option \<Rightarrow> (error + heap \<times> pyval option \<times> pyval option) option" where
  "sphadj_default h theta phi = sphadj h theta phi (- (pi / 2)) (pi / 2) (- pi) pi"

definition eleadj :: "heap \<Rightarrow> pyval \<Rightarrow> (error + heap \<times> pyval option) option" where
  "eleadj h theta =
     (case sphadj_default h (Some theta) None of
        None \<Rightarrow> None
      | Some (Inl e) \<Rightarrow> Some (Inl e)
      | Some (Inr (h', theta', _)) \<Rightarrow> Some (Inr (h', theta')))"

definition aziadj :: "heap \<Rightarrow> pyval \<Rightarrow> (error + heap \<times> pyval option) option" where
  "aziadj h phi =
     (case sphadj_default h None (Some phi) of
        None \<Rightarrow> None
      | Some (Inl e) \<Rightarrow> Some (Inl e)
      | Some (Inr (h', _, phi')) \<Rightarrow> Some (Inr (h', phi')))"

subsection \<open>\<^verbatim>\<open>vec2sph\<close>\<close>

text \<open>The first outcome that is not a value, or all the values.\<close>

fun sequence_sum :: "(error + 'a) list \<Rightarrow> error + 'a list" where
  "sequence_sum [] = Inr []"
| "sequence_sum (r # rs) =
     (case r of
        Inl e \<Rightarrow> Inl e
      | Inr x \<Rightarrow> (case sequence_sum rs of Inl e \<Rightarrow> Inl e | Inr xs \<Rightarrow> Inr (x # xs)))"

text \<open>One row of \<^verbatim>\<open>vec / rho\<close>, the divisors already laid along the last axis.\<close>

definition div3 :: "vec3 \<Rightarrow> vec3 \<Rightarrow> error + vec3" where
  "div3 v d = (case v of (x, y, z) \<Rightarrow> (case d of (a, b, c) \<Rightarrow>
     (case np_div x a of
        Inl e \<Rightarrow> Inl e
      | Inr v0 \<Rightarrow>
          (case np_div y b of
             Inl e \<Rightarrow> Inl e
           | Inr v1 \<Rightarrow> (case np_div z c of Inl e \<Rightarrow> Inl e | Inr v2 \<Rightarrow> Inr (v0, v1, v2))))))"

text \<open>
  \<^verbatim>\<open>vec / rho\<close> for \<open>vec\<close> of shape \<open>(N, 3)\<close> and \<open>rho\<close> of shape \<open>(N,)\<close>. numpy aligns the
  trailing axes, so \<open>rho\<close> runs along the three columns: the shapes fit only for
  \<open>N = 3\<close>, where column \<open>j\<close> is divided by \<open>rho[j]\<close>, and for \<open>N = 1\<close>.
\<close>

definition div_rows :: "vec3 list \<Rightarrow> real list \<Rightarrow> error + vec3 list" where
  "div_rows rows rho =
     (if length rho = 3 then sequence_sum (map (\<lambda>v. div3 v (rho ! 0, rho ! 1, rho ! 2)) rows)
      else if length rho = 1 then sequence_sum (map (\<lambda>v. div3 v (rho ! 0, rho ! 0, rho ! 0)) rows)
      else Inl ValueError)"

text \<open>Lines 57 and 58 (62 and 63) on one normalised row: \<open>(theta, phi)\<close>.\<close>

definition raw_angles :: "vec3 \<Rightarrow> error + real \<times> real" where
  "raw_angles v = (case v of (v0, v1, v2) \<Rightarrow>
     (case np_arccos v2 of
        Inl e \<Rightarrow> Inl e
      | Inr c \<Rightarrow> Inr (pi / 2 - c, arctan2 v0 v1)))"

text \<open>\<^verbatim>\<open>np.asarray([theta, phi, rho]).T\<close>\<close>

fun asarrayT :: "heap \<Rightarrow> pyval option \<Rightarrow> pyval option \<Rightarrow> nd \<Rightarrow> error + vecs" where
  "asarrayT h (Some (Scalar t)) (Some (Scalar p)) (Sc r) = Inr (Single (t, p, r))"
| "asarrayT h (Some (Array a)) (Some (Array b)) (Ar rs) =
     (if length (cells h a) = length rs \<and> length (cells h b) = length rs
      then Inr (Batch (zip (cells h a) (zip (cells h b) rs)))
      else Inl ValueError)"
| "asarrayT h _ _ _ = Inl ValueError"

definition empty_heap :: heap where
  "empty_heap = \<lparr>cells = (\<lambda>a. []), next_free = 0\<rparr>"

text \<open>The store of a caller that holds the two arrays \<open>theta\<close> and \<open>phi\<close>.\<close>

definition heap2 :: "real list \<Rightarrow> real list \<Rightarrow> heap" where
  "heap2 thetas phis = \<lparr>cells = (\<lambda>a. [])(0 := thetas, 1 := phis), next_free = 2\<rparr>"

text \<open>
  A norm that is \<^verbatim>\<open>inf\<close> raises nothing: on a batch the code goes on to \<^verbatim>\<open>vec / rho\<close>,
  which raises for a shape that does not fit. So the shape is looked at first.
\<close>

fun vec2sph :: "vecs \<Rightarrow> (error + vecs) option" where
  "vec2sph (Single v) =
     (case la_norm v of
        Inl e \<Rightarrow> Some (Inl e)
      | Inr n \<Rightarrow>
          (let rho = (if n = 0 then 1 else n) in
           case div3 v (rho, rho, rho) of
             Inl e \<Rightarrow> Some (Inl e)
           | Inr u \<Rightarrow>
               (case raw_angles u of
                  Inl e \<Rightarrow> Some (Inl e)
                | Inr (theta, phi) \<Rightarrow>
                    (case sphadj_default empty_heap (Some (Scalar theta)) (Some (Scalar phi)) of
                       None \<Rightarrow> None
                     | Some (Inl e) \<Rightarrow> Some (Inl e)
                     | Some (Inr (h', theta', phi')) \<Rightarrow>
                         Some (asarrayT h' theta' phi' (Sc rho))))))"
| "vec2sph (Batch rows) =
     (if length rows \<noteq> 3 \<and> length rows \<noteq> 1 then Some (Inl ValueError)
      else
        (case sequence_sum (map la_norm rows) of
           Inl e \<Rightarrow> Some (Inl e)
         | Inr ns \<Rightarrow>
             (let rho = map (\<lambda>n. if n = 0 then 1 else n) ns in
              case div_rows rows rho of
                Inl e \<Rightarrow> Some (Inl e)
              | Inr us \<Rightarrow>
                  (case sequence_sum (map raw_angles us) of
                     Inl e \<Rightarrow> Some (Inl e)
                   | Inr angles \<Rightarrow>
                       (case sphadj_default (heap2 (map fst angles) (map snd angles))
                               (Some (Array 0)) (Some (Array 1)) of
                          None \<Rightarrow> None
                        | Some (Inl e) \<Rightarrow> Some (Inl e)
                        | Some (Inr (h', theta', phi')) \<Rightarrow>
                            Some (asarrayT h' theta' phi' (Ar rho)))))))"

text \<open>\<^verbatim>\<open>sph2vec(vec2sph(vec))\<close>\<close>

definition roundtrip :: "vecs \<Rightarrow> (error + vecs) option" where
  "roundtrip vec =
     (case vec2sph vec of
        None \<Rightarrow> None
      | Some (Inl e) \<Rightarrow> Some (Inl e)
      | Some (Inr s) \<Rightarrow> Some (Inr (sph2vec s)))"

subsection \<open>\<^verbatim>\<open>vec2pol\<close> and \<^verbatim>\<open>pol2vec\<close>\<close>

text \<open>
  The packed call form returns one array, the two-argument call form a pair. The
  packed form is given for a 1-d array; on a batch it acts on each row alike.
\<close>

datatype pol = Packed "real list" | Pair nd nd

definition vec2pol :: "nd \<Rightarrow> nd option \<Rightarrow> error + pol" where
  "vec2pol vec y =
     (case y of
        None \<Rightarrow>
          (case vec of
             Sc a \<Rightarrow> Inl IndexError
           | Ar v \<Rightarrow>
               (case bc_list (\<lambda>a b. sqrt (a\<^sup>2 + b\<^sup>2)) (take 1 v) (take 1 (drop 1 v)) of
                  Inl e \<Rightarrow> Inl e
                | Inr rho \<Rightarrow>
                    (case bc_list arctan2 (take 1 (drop 1 v)) (take 1 v) of
                       Inl e \<Rightarrow> Inl e
                     | Inr phi \<Rightarrow> Inr (Packed (rho @ phi)))))
      | Some y' \<Rightarrow>
          (case broadcast2 (\<lambda>a b. sqrt (a\<^sup>2 + b\<^sup>2)) vec y' of
             Inl e \<Rightarrow> Inl e
           | Inr rho \<Rightarrow>
               (case broadcast2 arctan2 vec y' of
                  Inl e \<Rightarrow> Inl e
                | Inr phi \<Rightarrow> Inr (Pair rho phi))))"

definition pol2vec :: "nd \<Rightarrow> nd option \<Rightarrow> error + pol" where
  "pol2vec pl phi =
     (case phi of
        None \<Rightarrow>
          (case pl of
             Sc a \<Rightarrow> Inl IndexError
           | Ar v \<Rightarrow>
               (case bc_list (\<lambda>a b. a * b) (take 1 v)
                       (map cos (take 1 (drop 1 v)) @ map sin (take 1 (drop 1 v))) of
                  Inl e \<Rightarrow> Inl e
                | Inr xy \<Rightarrow> Inr (Packed xy)))
      | Some phi' \<Rightarrow>
          (case broadcast2 (\<lambda>r p. r * cos p) pl phi' of
             Inl e \<Rightarrow> Inl e
           | Inr x \<Rightarrow>
               (case broadcast2 (\<lambda>r p. r * sin p) pl phi' of
                  Inl e \<Rightarrow> Inl e
                | Inr y \<Rightarrow> Inr (Pair x y))))"

subsection \<open>Auxiliary notions for the frame of \<^verbatim>\<open>sphadj\<close>\<close>

text \<open>The array a value refers to, if any.\<close>

definition addrs :: "pyval option \<Rightarrow> addr set" where
  "addrs v = (case v of Some (Array a) \<Rightarrow> {a} | _ \<Rightarrow> {})"

text \<open>Every array allocated in \<open>h\<close> and outside \<open>A\<close> is the same in \<open>h'\<close>.\<close>

definition untouched :: "addr set \<Rightarrow> heap \<Rightarrow> heap \<Rightarrow> bool" where
  "untouched A h h' \<longleftrightarrow>
     next_free h \<le> next_free h' \<and> (\<forall>a. a < next_free h \<and> a \<notin> A \<longrightarrow> cells h' a = cells h a)"

section \<open>Properties\<close>

subsection \<open>The float remainder and \<^verbatim>\<open>angle_between\<close>\<close>

lemma py_fmod_bounds: "0 < b \<Longrightarrow> 0 \<le> py_fmod a b \<and> py_fmod a b < b"
proof -
  assume b: "0 < b"
  have l: "of_int \<lfloor>a / b\<rfloor> * b \<le> a" using b by (rule floor_divide_lower)
  have u: "a < (of_int \<lfloor>a / b\<rfloor> + 1) * b" using b by (rule floor_divide_upper)
  show ?thesis using l u by (simp add: py_fmod_def algebra_simps)
qed

lemma py_fmod_unique:
  assumes b: "0 < b" and r: "0 \<le> r" "r < b" and a: "a = r + b * of_int k"
  shows "py_fmod a b = r"
proof -
  have "a / b = r / b + of_int k" using b a by (simp add: field_simps)
  moreover have "0 \<le> r / b" "r / b < 1" using b r by simp_all
  ultimately have "\<lfloor>a / b\<rfloor> = k" by (intro floor_unique) simp_all
  then show ?thesis using a by (simp add: py_fmod_def)
qed

lemma py_fmod_shift: "0 < b \<Longrightarrow> py_fmod (a + b * of_int k) b = py_fmod a b"
proof -
  assume b: "0 < b"
  have "a + b * of_int k = py_fmod a b + b * of_int (\<lfloor>a / b\<rfloor> + k)"
    by (simp add: py_fmod_def algebra_simps)
  then show ?thesis using py_fmod_bounds[OF b, of a] py_fmod_unique[OF b] by blast
qed

lemma fold_bounds: "- pi \<le> py_fmod (x + pi) (2 * pi) - pi \<and> py_fmod (x + pi) (2 * pi) - pi < pi"
  using py_fmod_bounds[of "2 * pi" "x + pi"] by simp

lemma fold_cong: "py_fmod (x + pi) (2 * pi) - pi = x + 2 * pi * of_int (- \<lfloor>(x + pi) / (2 * pi)\<rfloor>)"
  by (simp add: py_fmod_def)

lemma fold_unique:
  assumes "- pi \<le> e" "e < pi" "e = x + 2 * pi * of_int k"
  shows "py_fmod (x + pi) (2 * pi) - pi = e"
proof -
  have "x + pi = (e + pi) + 2 * pi * of_int (- k)" using assms(3) by simp
  then have "py_fmod (x + pi) (2 * pi) = e + pi"
    using assms(1,2) by (intro py_fmod_unique[where k="- k"]) simp_all
  then show ?thesis by simp
qed


lemma angle_between_scalar:
  "angle_between (Sc a) (Sc b) s =
     Inr (Sc (if s then py_fmod (a - b + pi) (2 * pi) - pi
              else \<bar>py_fmod (a - b + pi) (2 * pi) - pi\<bar>))"
  by (simp add: angle_between_def)

lemma angle_between_array:
  "length xs = length ys \<Longrightarrow>
   angle_between (Ar xs) (Ar ys) s =
     Inr (Ar (map2 (\<lambda>a b. if s then py_fmod (a - b + pi) (2 * pi) - pi
                            else \<bar>py_fmod (a - b + pi) (2 * pi) - pi\<bar>) xs ys))"
  by (cases s) (simp_all add: angle_between_def bc_list_def split_def Let_def comp_def)

text \<open>
  C3 (amended). With \<open>sign=True\<close>, \<open>angle_between\<close> returns the unique value congruent to
  \<open>ang1 - ang2\<close> modulo \<open>2 pi\<close> in the interval \<open>[-pi, pi)\<close>, closed below and open above;
  with \<open>sign=False\<close> it returns the absolute value of that, which lies in \<open>[0, pi]\<close>. On
  arrays of equal length it does so entry by entry. In particular
  \<open>angle_between(pi - 0.01, -pi + 0.01) = -0.02\<close> and \<open>angle_between(0, pi, sign=False) = pi\<close>.
\<close>

theorem angle_between_half_open_below:
  "(\<exists>d. angle_between (Sc a) (Sc b) True = Inr (Sc d)
        \<and> - pi \<le> d \<and> d < pi
        \<and> (\<exists>k::int. d = a - b + 2 * pi * of_int k)
        \<and> (\<forall>e. - pi \<le> e \<and> e < pi \<and> (\<exists>k::int. e = a - b + 2 * pi * of_int k) \<longrightarrow> e = d)
        \<and> angle_between (Sc a) (Sc b) False = Inr (Sc \<bar>d\<bar>)
        \<and> 0 \<le> \<bar>d\<bar> \<and> \<bar>d\<bar> \<le> pi)
   \<and> (length xs = length ys \<longrightarrow>
        (\<exists>ds. angle_between (Ar xs) (Ar ys) s = Inr (Ar ds)
           \<and> length ds = length xs
           \<and> (\<forall>i<length xs. angle_between (Sc (xs ! i)) (Sc (ys ! i)) s = Inr (Sc (ds ! i)))))
   \<and> angle_between (Sc (pi - 1 / 100)) (Sc (- pi + 1 / 100)) True = Inr (Sc (- (1 / 50)))
   \<and> angle_between (Sc 0) (Sc pi) False = Inr (Sc pi)"
proof (intro conjI)
  let ?d = "py_fmod (a - b + pi) (2 * pi) - pi"
  have b: "- pi \<le> ?d" "?d < pi" using fold_bounds[of "a - b"] by simp_all
  have u: "\<forall>e. - pi \<le> e \<and> e < pi \<and> (\<exists>k::int. e = a - b + 2 * pi * of_int k) \<longrightarrow> e = ?d"
  proof (intro allI impI)
    fix e assume "- pi \<le> e \<and> e < pi \<and> (\<exists>k::int. e = a - b + 2 * pi * of_int k)"
    then obtain k :: int where "- pi \<le> e" "e < pi" "e = a - b + 2 * pi * of_int k" by blast
    then show "e = ?d" using fold_unique[of e "a - b" k] by simp
  qed
  have c: "\<exists>k::int. ?d = a - b + 2 * pi * of_int k"
    using fold_cong[of "a - b"] by blast
  show "\<exists>d. angle_between (Sc a) (Sc b) True = Inr (Sc d)
        \<and> - pi \<le> d \<and> d < pi
        \<and> (\<exists>k::int. d = a - b + 2 * pi * of_int k)
        \<and> (\<forall>e. - pi \<le> e \<and> e < pi \<and> (\<exists>k::int. e = a - b + 2 * pi * of_int k) \<longrightarrow> e = d)
        \<and> angle_between (Sc a) (Sc b) False = Inr (Sc \<bar>d\<bar>)
        \<and> 0 \<le> \<bar>d\<bar> \<and> \<bar>d\<bar> \<le> pi"
  proof (intro exI[of _ ?d] conjI)
    show "angle_between (Sc a) (Sc b) True = Inr (Sc ?d)" by (simp add: angle_between_scalar)
    show "angle_between (Sc a) (Sc b) False = Inr (Sc \<bar>?d\<bar>)" by (simp add: angle_between_scalar)
    show "\<bar>?d\<bar> \<le> pi" using b by linarith
  qed (use b c u in simp_all)
next
  show "length xs = length ys \<longrightarrow>
        (\<exists>ds. angle_between (Ar xs) (Ar ys) s = Inr (Ar ds)
           \<and> length ds = length xs
           \<and> (\<forall>i<length xs. angle_between (Sc (xs ! i)) (Sc (ys ! i)) s = Inr (Sc (ds ! i))))"
    by (simp add: angle_between_array angle_between_scalar)
next
  have "py_fmod (pi - 1 / 100 - (- pi + 1 / 100) + pi) (2 * pi) - pi = - (1 / 50)"
    using pi_ge_two by (intro fold_unique[where k = "- 1"]) simp_all
  then show "angle_between (Sc (pi - 1 / 100)) (Sc (- pi + 1 / 100)) True = Inr (Sc (- (1 / 50)))"
    by (simp add: angle_between_scalar)
next
  have "py_fmod (0 - pi + pi) (2 * pi) - pi = - pi"
    by (intro fold_unique[where k = 0]) simp_all
  then show "angle_between (Sc 0) (Sc pi) False = Inr (Sc pi)"
    by (simp add: angle_between_scalar)
qed

text \<open>The statement at two arrays of two angles and at the scalars 1 and 2.\<close>

theorem angle_between_half_open_below_witness:
  "length [1::real, 4] = length [2::real, 3]
   \<and> (\<exists>ds. angle_between (Ar [1, 4]) (Ar [2, 3]) True = Inr (Ar ds)
        \<and> length ds = 2
        \<and> angle_between (Sc 1) (Sc 2) True = Inr (Sc (ds ! 0))
        \<and> angle_between (Sc 4) (Sc 3) True = Inr (Sc (ds ! 1)))
   \<and> (\<exists>d. angle_between (Sc 1) (Sc 2) True = Inr (Sc d) \<and> - pi \<le> d \<and> d < pi)"
  using angle_between_half_open_below[of 1 2 "[1, 4]" "[2, 3]" True]
  by (auto simp: less_Suc_eq numeral_2_eq_2)

text \<open>
  C3 as stated fails: at \<open>ang1 - ang2 = pi\<close> the result is \<open>-pi\<close>, outside \<open>(-pi, pi]\<close>, and
  the signed difference of \<open>pi - 0.01\<close> and \<open>-pi + 0.01\<close> is \<open>-0.02\<close>, not \<open>0.02\<close>.
\<close>

theorem angle_between_pi_counterexample:
  "angle_between (Sc pi) (Sc 0) True = Inr (Sc (- pi)) \<and> \<not> (- pi < - pi)
   \<and> angle_between (Sc (pi - 1 / 100)) (Sc (- pi + 1 / 100)) True = Inr (Sc (- (1 / 50)))
   \<and> - (1 / 50) \<noteq> (1 / 50 :: real)"
proof (intro conjI)
  have "py_fmod (pi - 0 + pi) (2 * pi) - pi = - pi"
    by (intro fold_unique[where k = "- 1"]) simp_all
  then show "angle_between (Sc pi) (Sc 0) True = Inr (Sc (- pi))"
    by (simp add: angle_between_scalar)
next
  have "py_fmod (pi - 1 / 100 - (- pi + 1 / 100) + pi) (2 * pi) - pi = - (1 / 50)"
    using pi_ge_two by (intro fold_unique[where k = "- 1"]) simp_all
  then show "angle_between (Sc (pi - 1 / 100)) (Sc (- pi + 1 / 100)) True = Inr (Sc (- (1 / 50)))"
    by (simp add: angle_between_scalar)
qed simp_all

subsection \<open>Absorption, underflow and overflow\<close>

lemma rne_error: "\<bar>of_int (rne r) - r\<bar> \<le> 1 / 2"
proof -
  have "of_int \<lfloor>r\<rfloor> \<le> r" "r < of_int \<lfloor>r\<rfloor> + 1" by linarith+
  then show ?thesis by (auto simp: rne_def Let_def)
qed

lemma rne_near:
  assumes "\<bar>r - of_int n\<bar> < 1 / 2"
  shows "rne r = n"
proof -
  have e: "\<bar>of_int (rne r) - r\<bar> \<le> 1 / 2" by (rule rne_error)
  have "\<bar>(of_int (rne r) :: real) - of_int n\<bar> < 1" using e assms by linarith
  then have "\<bar>rne r - n\<bar> < 1" by (metis of_int_diff of_int_abs of_int_less_1_iff)
  then show ?thesis by simp
qed

lemma rne_0 [simp]: "rne 0 = 0"
  by (simp add: rne_def)

text \<open>Up to \<open>2 ^ 51\<close> the doubles are at most \<open>1 / 2\<close> apart.\<close>

lemma fl_error_small:
  assumes "\<bar>r\<bar> \<le> 2 ^ 51"
  shows "\<bar>fl r - r\<bar> \<le> 1 / 4"
proof (cases "r = 0")
  case True
  then show ?thesis by (simp add: fl_def)
next
  case False
  define e where "e = max \<lfloor>log 2 \<bar>r\<bar>\<rfloor> (- 1022)"
  define q :: real where "q = 2 powr (of_int e - 52)"
  have "\<bar>r\<bar> \<le> 2 powr 51" using assms by simp
  then have "log 2 \<bar>r\<bar> \<le> 51" using False by (subst log_le_iff) simp_all
  then have "\<lfloor>log 2 \<bar>r\<bar>\<rfloor> \<le> 51" by linarith
  then have "e \<le> 51" by (simp add: e_def)
  then have "q \<le> 2 powr (- 1)" unfolding q_def by (intro powr_mono) simp_all
  then have q: "0 < q" "q \<le> 1 / 2" by (simp_all add: q_def powr_minus)
  have f: "fl r = of_int (rne (r / q)) * q" using False by (simp add: fl_def Let_def q_def e_def)
  have "fl r - r = (of_int (rne (r / q)) - r / q) * q" using q(1) by (simp add: f field_simps)
  then have "\<bar>fl r - r\<bar> = \<bar>of_int (rne (r / q)) - r / q\<bar> * q" using q(1) by (simp add: abs_mult)
  also have "\<dots> \<le> 1 / 2 * q" using rne_error[of "r / q"] q(1) by (intro mult_right_mono) simp_all
  also have "\<dots> \<le> 1 / 4" using q(2) by simp
  finally show ?thesis .
qed

text \<open>So a step of size between 1 and 8 is never absorbed there.\<close>

lemma fadd_exact:
  assumes "\<bar>x\<bar> \<le> 2 ^ 50" "1 \<le> \<bar>c\<bar>" "\<bar>c\<bar> \<le> 8"
  shows "fadd x c = x + c"
proof -
  have b: "\<bar>x + c\<bar> \<le> 2 ^ 51" "\<bar>x\<bar> \<le> 2 ^ 51" using assms by simp_all
  have "\<bar>fl (x + c) - (x + c)\<bar> \<le> 1 / 4" using b(1) by (rule fl_error_small)
  moreover have "\<bar>fl x - x\<bar> \<le> 1 / 4" using b(2) by (rule fl_error_small)
  ultimately have "fl (x + c) \<noteq> fl x" using assms(2) by linarith
  then show ?thesis by (simp add: fadd_def)
qed

lemma fadd_2pi:
  assumes "\<bar>x\<bar> \<le> 2 ^ 50"
  shows "fadd x (2 * pi) = x + 2 * pi" and "fadd x (- (2 * pi)) = x - 2 * pi"
    and "fadd x pi = x + pi"
proof -
  have "1 \<le> \<bar>2 * pi\<bar>" "\<bar>2 * pi\<bar> \<le> 8" "1 \<le> \<bar>pi\<bar>" "\<bar>pi\<bar> \<le> 8"
    using pi_ge_two pi_less_4 by simp_all
  then show "fadd x (2 * pi) = x + 2 * pi" "fadd x (- (2 * pi)) = x - 2 * pi" "fadd x pi = x + pi"
    using fadd_exact[OF assms, of "2 * pi"] fadd_exact[OF assms, of "- (2 * pi)"]
      fadd_exact[OF assms, of pi] by simp_all
qed

text \<open>Between \<open>2 ^ 56\<close> and \<open>2 ^ 57\<close> the doubles are the multiples of 16.\<close>

lemma fl_in_binade:
  assumes "2 ^ 56 \<le> r" "r < 2 ^ 57"
  shows "fl r = of_int (rne (r / 16)) * 16"
proof -
  have p: "0 < r" using assms(1) by (smt (verit) zero_less_power)
  have "\<lfloor>log 2 \<bar>r\<bar>\<rfloor> = 56"
    using assms p by (subst floor_log_eq_powr_iff) (simp_all add: powr_realpow)
  moreover have "(2::real) powr 4 = 16" by (simp add: powr_realpow)
  ultimately show ?thesis using p by (simp add: fl_def Let_def)
qed

lemma fadd_absorbed: "fadd (10 ^ 17) (- (2 * pi)) = 10 ^ 17"
proof -
  have b: "(2::real) ^ 56 \<le> 10 ^ 17" "(10::real) ^ 17 < 2 ^ 57" by simp_all
  have "(2::real) ^ 56 + 8 \<le> 10 ^ 17" by simp
  then have b': "(2::real) ^ 56 \<le> 10 ^ 17 + - (2 * pi)" "(10::real) ^ 17 + - (2 * pi) < 2 ^ 57"
    using pi_less_4 pi_gt_zero b(2) by linarith+
  have "rne ((10 ^ 17 + - (2 * pi)) / 16) = 6250000000000000"
    using pi_less_4 pi_gt_zero by (intro rne_near) (simp add: field_simps)
  moreover have "rne (10 ^ 17 / 16) = 6250000000000000"
    by (intro rne_near) simp
  ultimately have "fl (10 ^ 17 + - (2 * pi)) = fl (10 ^ 17)"
    unfolding fl_in_binade[OF b] fl_in_binade[OF b'] by simp
  then show ?thesis by (simp add: fadd_def)
qed

lemma sq_d_0 [simp]: "sq_d 0 = 0"
  by (simp add: sq_d_def)

lemma sq_d_range:
  assumes "c = 0 \<or> (1 / 2 ^ 511 \<le> \<bar>c\<bar> \<and> \<bar>c\<bar> \<le> 2 ^ 511)"
  shows "sq_d c = c\<^sup>2" and "c\<^sup>2 \<le> 2 ^ 1022"
proof -
  show "sq_d c = c\<^sup>2"
  proof (cases "c = 0")
    case True
    then show ?thesis by simp
  next
    case False
    then have l: "1 / 2 ^ 511 \<le> \<bar>c\<bar>" using assms by simp
    have "(1 / 2 ^ 511) * (1 / 2 ^ 511) \<le> \<bar>c\<bar> * \<bar>c\<bar>"
      using l by (intro mult_mono) simp_all
    moreover have "(1 / 2 ^ 511) * (1 / 2 ^ 511) = (1 / 2 ^ 1022 :: real)"
      by (simp add: power_add[symmetric])
    ultimately have "1 / 2 ^ 1022 \<le> c * c" by (simp add: abs_mult_self_eq)
    then show ?thesis by (simp add: sq_d_def power2_eq_square not_less[symmetric])
  qed
  have "\<bar>c\<bar> \<le> 2 ^ 511" using assms by auto
  then have "\<bar>c\<bar> * \<bar>c\<bar> \<le> 2 ^ 511 * 2 ^ 511" by (intro mult_mono) simp_all
  moreover have "(2::real) ^ 511 * 2 ^ 511 = 2 ^ 1022" by (simp add: power_add[symmetric])
  ultimately show "c\<^sup>2 \<le> 2 ^ 1022" by (simp add: power2_eq_square abs_mult_self_eq)
qed

text \<open>
  On a vector whose nonzero components have magnitudes between \<open>2 ^ -511\<close> and \<open>2 ^ 511\<close>
  no square underflows and the sum does not overflow: \<^verbatim>\<open>la.norm\<close> is the norm.
\<close>

lemma la_norm_safe:
  assumes "x = 0 \<or> (1 / 2 ^ 511 \<le> \<bar>x\<bar> \<and> \<bar>x\<bar> \<le> 2 ^ 511)"
    and "y = 0 \<or> (1 / 2 ^ 511 \<le> \<bar>y\<bar> \<and> \<bar>y\<bar> \<le> 2 ^ 511)"
    and "z = 0 \<or> (1 / 2 ^ 511 \<le> \<bar>z\<bar> \<and> \<bar>z\<bar> \<le> 2 ^ 511)"
  shows "la_norm (x, y, z) = Inr (norm3 (x, y, z))"
proof -
  note a = sq_d_range[OF assms(1)] and b = sq_d_range[OF assms(2)] and c = sq_d_range[OF assms(3)]
  define P Q :: real where "P = 2 ^ 1022" and "Q = 2 ^ 970"
  have "(2::real) ^ 1024 = 2 ^ 1022 * 2 ^ 2" by (simp only: power_add[symmetric]) simp
  then have e: "(2::real) ^ 1024 - 2 ^ 970 = 4 * P - Q" by (simp add: P_def Q_def)
  have "Q < P" unfolding P_def Q_def by (intro power_strict_increasing) simp_all
  moreover have "x\<^sup>2 \<le> P" "y\<^sup>2 \<le> P" "z\<^sup>2 \<le> P"
    using a(2) b(2) c(2) by (simp_all only: P_def)
  ultimately have "x\<^sup>2 + y\<^sup>2 + z\<^sup>2 < 2 ^ 1024 - 2 ^ 970"
    unfolding e by linarith
  then show ?thesis by (simp add: la_norm_def norm3_def a(1) b(1) c(1) Let_def not_le[symmetric])
qed

lemma la_norm_overflow: "la_norm (0, 0, 2 ^ 600) = Inl NonFinite"
proof -
  have "\<not> (2 ^ 600 * 2 ^ 600 < (1 / 2 ^ 1022 :: real))" by simp
  then have s: "sq_d (2 ^ 600) = 2 ^ 600 * 2 ^ 600" by (simp only: sq_d_def if_False)
  have "(2::real) ^ 1024 - 2 ^ 970 \<le> 0 + 0 + 2 ^ 600 * 2 ^ 600" by simp
  then show ?thesis unfolding la_norm_def prod.case Let_def sq_d_0 s by (simp only: if_True)
qed

text \<open>
  The square of \<open>9 * 2 ^ -540\<close> is \<open>(81 / 64) * 2 ^ -1074\<close> and is rounded to \<open>2 ^ -1074\<close>: the
  norm comes out as \<open>2 ^ -537\<close>, below the component itself.
\<close>

lemma la_norm_underflow: "la_norm (0, 0, 9 / 2 ^ 540) = Inr (1 / 2 ^ 537)"
proof -
  let ?z = "9 / 2 ^ 540 :: real"
  have zz: "?z * ?z = 81 / 2 ^ 1080" by (simp add: power_add[symmetric])
  have u: "?z * ?z < 1 / 2 ^ 1022" unfolding zz by (simp add: field_simps)
  have "?z * ?z * 2 ^ 1074 = 81 / 64" unfolding zz by (simp add: field_simps)
  moreover have "rne (81 / 64) = 1" by (rule rne_near) simp
  ultimately have s: "sq_d ?z = 1 / 2 ^ 1074" using u by (simp only: sq_d_def if_True)
  have p: "(2::real) ^ 1074 = (2 ^ 537)\<^sup>2"
    unfolding power2_eq_square power_add[symmetric]
    by (rule arg_cong[where f = "\<lambda>n. 2 ^ n"]) simp
  have r: "sqrt (1 / 2 ^ 1074) = 1 / 2 ^ 537"
    unfolding p real_sqrt_divide real_sqrt_one real_sqrt_abs
    by (simp only: abs_of_nonneg zero_le_power zero_le_numeral)
  define A P Q :: real where "A = 1 / 2 ^ 1074" and "P = 2 ^ 1024" and "Q = 2 ^ 970"
  have "A < 1" unfolding A_def by (simp add: one_less_power)
  moreover have "Q * 2 \<le> P"
    unfolding P_def Q_def power_Suc2[symmetric] by (intro power_increasing) simp_all
  moreover have "1 \<le> Q" unfolding Q_def by (rule one_le_power) simp
  ultimately have "\<not> (P - Q \<le> 0 + 0 + A)" by linarith
  then have "\<not> (2 ^ 1024 - 2 ^ 970 \<le> 0 + 0 + (1 / 2 ^ 1074 :: real))"
    unfolding A_def P_def Q_def .
  then show ?thesis
    unfolding la_norm_def prod.case Let_def sq_d_0 s by (simp only: if_False add_0 r)
qed

subsection \<open>The four azimuth loops terminate on entries within \<open>2 ^ 50\<close>\<close>

lemma heap_cells_triv [simp]: "h\<lparr>cells := (cells h)(a := cells h a)\<rparr> = h"
  by simp

lemma put_contents [simp]: "put h v (contents h v) = (h, v)"
  by (cases v) (simp_all add: put_def contents_def)

lemma contents_put:
  "length xs = length (contents h v) \<Longrightarrow> contents (fst (put h v xs)) (snd (put h v xs)) = xs"
  by (cases v) (auto simp: put_def contents_def length_Suc_conv)

lemma put_put [simp]: "put (fst (put h v xs)) (snd (put h v xs)) ys = put h v ys"
  by (cases v) (simp_all add: put_def)

lemma iadd_put: "iadd c h v = put h v (map (\<lambda>x. fadd x c) (contents h v))"
  by (cases v) (simp_all add: iadd_def put_def contents_def)

lemma map2_mask: "map2 (\<lambda>m x. if m then f x else x) (map p xs) xs = map (\<lambda>x. if p x then f x else x) xs"
  by (induction xs) simp_all

lemma update_where_self:
  "update_where (map p (cells h a)) f h a
     = Inr (fst (put h (Array a) (map (\<lambda>x. if p x then f x else x) (cells h a))))"
  by (simp add: update_where_def put_def map2_mask)

text \<open>
  A step of \<open>2 * pi\<close> is exact while the entries stay within \<open>2 ^ 50\<close>, and the loops keep them
  there: an entry is only raised while it is below \<open>lo\<close> and only lowered while it is at least
  \<open>hi\<close>.
\<close>

lemma azi_up_all_terminates:
  assumes "\<exists>x\<in>set (contents h phi). lo \<le> x + 2 * pi * real n"
    and "\<forall>x\<in>set (contents h phi). \<bar>x\<bar> \<le> M" and "\<bar>lo\<bar> + 2 * pi \<le> M" and "M \<le> 2 ^ 50"
  shows "\<exists>k. azi_up_all lo h phi
               = Some (put h phi (map (\<lambda>x. x + 2 * pi * real k) (contents h phi)))
           \<and> \<not> list_all (\<lambda>x. x + 2 * pi * real k < lo) (contents h phi)
           \<and> (0 < k \<longrightarrow> list_all (\<lambda>x. x + 2 * pi * real k < lo + 2 * pi) (contents h phi))
           \<and> (\<forall>x\<in>set (contents h phi). \<bar>x + 2 * pi * real k\<bar> \<le> M)"
  using assms
proof (induction n arbitrary: h phi)
  case 0
  then have "\<not> list_all (\<lambda>x. x < lo) (contents h phi)"
    by (fastforce simp: list_all_iff)
  then show ?case
    using "0.prems"(2) by (intro exI[of _ 0]) (subst azi_up_all.simps, simp)
next
  case (Suc n)
  let ?xs = "contents h phi"
  show ?case
  proof (cases "list_all (\<lambda>x. x < lo) ?xs")
    case False
    then show ?thesis
      using Suc.prems(2) by (intro exI[of _ 0]) (subst azi_up_all.simps, simp)
  next
    case True
    let ?h1 = "fst (iadd (2 * pi) h phi)" and ?p1 = "snd (iadd (2 * pi) h phi)"
    have ex: "map (\<lambda>x. fadd x (2 * pi)) ?xs = map (\<lambda>x. x + 2 * pi) ?xs"
      using Suc.prems(2,4) by (intro map_cong refl fadd_2pi(1)) fastforce
    have c1: "contents ?h1 ?p1 = map (\<lambda>x. x + 2 * pi) ?xs"
      by (simp add: iadd_put contents_put ex)
    have "\<exists>x\<in>set (contents ?h1 ?p1). lo \<le> x + 2 * pi * real n"
    proof -
      from Suc.prems(1) obtain x where x: "x \<in> set ?xs" "lo \<le> x + 2 * pi * real (Suc n)" by blast
      have "x + 2 * pi \<in> set (contents ?h1 ?p1)" using x(1) unfolding c1 by simp
      moreover have "lo \<le> (x + 2 * pi) + 2 * pi * real n" using x(2) by (simp add: algebra_simps)
      ultimately show ?thesis by blast
    qed
    moreover have "\<forall>y\<in>set (contents ?h1 ?p1). \<bar>y\<bar> \<le> M"
    proof
      fix y assume "y \<in> set (contents ?h1 ?p1)"
      then obtain x where x: "x \<in> set ?xs" "y = x + 2 * pi" unfolding c1 by auto
      have "x < lo" "\<bar>x\<bar> \<le> M" using True Suc.prems(2) x(1) by (auto simp: list_all_iff)
      then show "\<bar>y\<bar> \<le> M" using Suc.prems(3) pi_gt_zero unfolding x(2) by linarith
    qed
    ultimately obtain k where
      k: "azi_up_all lo ?h1 ?p1
            = Some (put ?h1 ?p1 (map (\<lambda>x. x + 2 * pi * real k) (contents ?h1 ?p1)))"
         "\<not> list_all (\<lambda>x. x + 2 * pi * real k < lo) (contents ?h1 ?p1)"
         "0 < k \<longrightarrow> list_all (\<lambda>x. x + 2 * pi * real k < lo + 2 * pi) (contents ?h1 ?p1)"
         "\<forall>x\<in>set (contents ?h1 ?p1). \<bar>x + 2 * pi * real k\<bar> \<le> M"
      using Suc.IH[OF _ _ Suc.prems(3,4)] by blast
    have e: "(\<lambda>x. x + 2 * pi + 2 * pi * real k) = (\<lambda>x. x + 2 * pi * real (Suc k))"
      by (auto simp: algebra_simps)
    have "azi_up_all lo h phi = azi_up_all lo ?h1 ?p1"
      using True by (subst azi_up_all.simps) simp
    also have "\<dots> = Some (put h phi (map (\<lambda>x. x + 2 * pi * real (Suc k)) ?xs))"
      unfolding k(1) c1 by (simp add: iadd_put comp_def e)
    finally have r: "azi_up_all lo h phi
       = Some (put h phi (map (\<lambda>x. x + 2 * pi * real (Suc k)) ?xs))" .
    have b: "\<forall>x\<in>set ?xs. \<bar>x + 2 * pi * real (Suc k)\<bar> \<le> M"
      using k(4) unfolding c1 by (simp add: algebra_simps)
    have n: "\<not> list_all (\<lambda>x. x + 2 * pi * real (Suc k) < lo) ?xs"
      using k(2) unfolding c1 by (simp add: list_all_iff algebra_simps)
    have u: "list_all (\<lambda>x. x + 2 * pi * real (Suc k) < lo + 2 * pi) ?xs"
    proof (cases "0 < k")
      case True
      then show ?thesis using k(3) unfolding c1 by (simp add: list_all_iff algebra_simps)
    next
      case False
      then show ?thesis using \<open>list_all (\<lambda>x. x < lo) ?xs\<close> by (simp add: list_all_iff)
    qed
    show ?thesis using r n u b by (intro exI[of _ "Suc k"]) simp
  qed
qed


lemma azi_down_all_terminates:
  assumes "\<exists>x\<in>set (contents h phi). x - 2 * pi * real n < hi"
    and "\<forall>x\<in>set (contents h phi). \<bar>x\<bar> \<le> M" and "\<bar>hi\<bar> + 2 * pi \<le> M" and "M \<le> 2 ^ 50"
  shows "\<exists>k. azi_down_all hi h phi
               = Some (put h phi (map (\<lambda>x. x - 2 * pi * real k) (contents h phi)))
           \<and> \<not> list_all (\<lambda>x. hi \<le> x - 2 * pi * real k) (contents h phi)
           \<and> (0 < k \<longrightarrow> list_all (\<lambda>x. hi - 2 * pi \<le> x - 2 * pi * real k) (contents h phi))
           \<and> (\<forall>x\<in>set (contents h phi). \<bar>x - 2 * pi * real k\<bar> \<le> M)"
  using assms
proof (induction n arbitrary: h phi)
  case 0
  then have "\<not> list_all (\<lambda>x. hi \<le> x) (contents h phi)"
    by (fastforce simp: list_all_iff)
  then show ?case
    using "0.prems"(2) by (intro exI[of _ 0]) (subst azi_down_all.simps, simp)
next
  case (Suc n)
  let ?xs = "contents h phi"
  show ?case
  proof (cases "list_all (\<lambda>x. hi \<le> x) ?xs")
    case False
    then show ?thesis
      using Suc.prems(2) by (intro exI[of _ 0]) (subst azi_down_all.simps, simp)
  next
    case True
    let ?h1 = "fst (iadd (- (2 * pi)) h phi)" and ?p1 = "snd (iadd (- (2 * pi)) h phi)"
    have ex: "map (\<lambda>x. fadd x (- (2 * pi))) ?xs = map (\<lambda>x. x - 2 * pi) ?xs"
      using Suc.prems(2,4) by (intro map_cong refl fadd_2pi(2)) fastforce
    have c1: "contents ?h1 ?p1 = map (\<lambda>x. x - 2 * pi) ?xs"
      by (simp add: iadd_put contents_put ex)
    have "\<exists>x\<in>set (contents ?h1 ?p1). x - 2 * pi * real n < hi"
    proof -
      from Suc.prems(1) obtain x where x: "x \<in> set ?xs" "x - 2 * pi * real (Suc n) < hi" by blast
      have "x - 2 * pi \<in> set (contents ?h1 ?p1)" using x(1) unfolding c1 by simp
      moreover have "(x - 2 * pi) - 2 * pi * real n < hi" using x(2) by (simp add: algebra_simps)
      ultimately show ?thesis by blast
    qed
    moreover have "\<forall>y\<in>set (contents ?h1 ?p1). \<bar>y\<bar> \<le> M"
    proof
      fix y assume "y \<in> set (contents ?h1 ?p1)"
      then obtain x where x: "x \<in> set ?xs" "y = x - 2 * pi" unfolding c1 by auto
      have "hi \<le> x" "\<bar>x\<bar> \<le> M" using True Suc.prems(2) x(1) by (auto simp: list_all_iff)
      then show "\<bar>y\<bar> \<le> M" using Suc.prems(3) pi_gt_zero unfolding x(2) by linarith
    qed
    ultimately obtain k where
      k: "azi_down_all hi ?h1 ?p1
            = Some (put ?h1 ?p1 (map (\<lambda>x. x - 2 * pi * real k) (contents ?h1 ?p1)))"
         "\<not> list_all (\<lambda>x. hi \<le> x - 2 * pi * real k) (contents ?h1 ?p1)"
         "0 < k \<longrightarrow> list_all (\<lambda>x. hi - 2 * pi \<le> x - 2 * pi * real k) (contents ?h1 ?p1)"
         "\<forall>x\<in>set (contents ?h1 ?p1). \<bar>x - 2 * pi * real k\<bar> \<le> M"
      using Suc.IH[OF _ _ Suc.prems(3,4)] by blast
    have e: "(\<lambda>x. x - 2 * pi - 2 * pi * real k) = (\<lambda>x. x - 2 * pi * real (Suc k))"
      by (auto simp: algebra_simps)
    have "azi_down_all hi h phi = azi_down_all hi ?h1 ?p1"
      using True by (subst azi_down_all.simps) simp
    also have "\<dots> = Some (put h phi (map (\<lambda>x. x - 2 * pi * real (Suc k)) ?xs))"
      unfolding k(1) c1 by (simp add: iadd_put comp_def e)
    finally have r: "azi_down_all hi h phi
       = Some (put h phi (map (\<lambda>x. x - 2 * pi * real (Suc k)) ?xs))" .
    have b: "\<forall>x\<in>set ?xs. \<bar>x - 2 * pi * real (Suc k)\<bar> \<le> M"
      using k(4) unfolding c1 by (simp add: algebra_simps)
    have n: "\<not> list_all (\<lambda>x. hi \<le> x - 2 * pi * real (Suc k)) ?xs"
      using k(2) unfolding c1 by (simp add: list_all_iff algebra_simps)
    have u: "list_all (\<lambda>x. hi - 2 * pi \<le> x - 2 * pi * real (Suc k)) ?xs"
    proof (cases "0 < k")
      case True
      then show ?thesis using k(3) unfolding c1 by (simp add: list_all_iff algebra_simps)
    next
      case False
      then show ?thesis using \<open>list_all (\<lambda>x. hi \<le> x) ?xs\<close> by (simp add: list_all_iff)
    qed
    show ?thesis using r n u b by (intro exI[of _ "Suc k"]) simp
  qed
qed

lemma azi_up_any_scalar:
  "azi_up_any lo h (Scalar x) = (if x < lo then Some (Inl TypeError) else Some (Inr (h, Scalar x)))"
  by (subst azi_up_any.simps) (simp add: contents_def)

lemma azi_down_any_scalar:
  "azi_down_any hi h (Scalar x) = (if hi \<le> x then Some (Inl TypeError) else Some (Inr (h, Scalar x)))"
  by (subst azi_down_any.simps) (simp add: contents_def)

lemma azi_up_any_terminates:
  assumes "\<forall>x\<in>set (cells h a). lo \<le> x + 2 * pi * real n"
    and "\<forall>x\<in>set (cells h a). \<bar>x\<bar> \<le> M" and "\<bar>lo\<bar> + 2 * pi \<le> M" and "M \<le> 2 ^ 50"
  shows "\<exists>ys. azi_up_any lo h (Array a) = Some (Inr (put h (Array a) ys))
            \<and> list_all2 (\<lambda>x y. (lo \<le> x \<longrightarrow> y = x)
                  \<and> (x < lo \<longrightarrow> lo \<le> y \<and> y < lo + 2 * pi \<and> (\<exists>k::nat. y = x + 2 * pi * real k)))
                (cells h a) ys
            \<and> (\<forall>y\<in>set ys. \<bar>y\<bar> \<le> M)"
  using assms
proof (induction n arbitrary: h)
  case 0
  then have "\<not> list_ex (\<lambda>x. x < lo) (contents h (Array a))"
    by (fastforce simp: list_ex_iff contents_def)
  then have "azi_up_any lo h (Array a) = Some (Inr (put h (Array a) (cells h a)))"
    by (subst azi_up_any.simps) (simp add: put_def)
  moreover have "list_all2 (\<lambda>x y. (lo \<le> x \<longrightarrow> y = x)
                  \<and> (x < lo \<longrightarrow> lo \<le> y \<and> y < lo + 2 * pi \<and> (\<exists>k::nat. y = x + 2 * pi * real k)))
                (cells h a) (cells h a)"
    using "0.prems"(1) by (fastforce simp: list_all2_same)
  ultimately show ?case using "0.prems"(2) by blast
next
  case (Suc n)
  let ?xs = "cells h a"
  let ?Q = "\<lambda>x y. (lo \<le> x \<longrightarrow> y = x)
                  \<and> (x < lo \<longrightarrow> lo \<le> y \<and> y < lo + 2 * pi \<and> (\<exists>k::nat. y = x + 2 * pi * real k))"
  show ?case
  proof (cases "list_ex (\<lambda>x. x < lo) ?xs")
    case False
    then have "azi_up_any lo h (Array a) = Some (Inr (put h (Array a) ?xs))"
      by (subst azi_up_any.simps) (simp add: put_def contents_def)
    moreover have "list_all2 ?Q ?xs ?xs"
      using False by (fastforce simp: list_all2_same list_ex_iff)
    ultimately show ?thesis using Suc.prems(2) by blast
  next
    case True
    let ?f = "\<lambda>x. if x < lo then x + 2 * pi else x"
    let ?h1 = "fst (put h (Array a) (map ?f ?xs))"
    have c1: "cells ?h1 a = map ?f ?xs" by (simp add: put_def)
    have ex: "map (\<lambda>x. if x < lo then fadd x (2 * pi) else x) ?xs = map ?f ?xs"
    proof (rule map_cong[OF refl])
      fix x assume "x \<in> set ?xs"
      then have "\<bar>x\<bar> \<le> 2 ^ 50" using Suc.prems(2,4) by fastforce
      then show "(if x < lo then fadd x (2 * pi) else x) = ?f x" by (simp add: fadd_2pi(1))
    qed
    have "\<forall>x\<in>set (cells ?h1 a). lo \<le> x + 2 * pi * real n"
    proof
      fix y assume "y \<in> set (cells ?h1 a)"
      then obtain x where x: "x \<in> set ?xs" "y = ?f x" unfolding c1 by auto
      have s: "lo \<le> x + 2 * pi * real (Suc n)" using Suc.prems(1) x(1) by blast
      have nn: "0 \<le> 2 * pi * real n" by simp
      show "lo \<le> y + 2 * pi * real n"
      proof (cases "x < lo")
        case True
        then show ?thesis using s unfolding x(2) by (simp add: algebra_simps)
      next
        case False
        then have "y = x" using x(2) by simp
        with nn False show ?thesis by linarith
      qed
    qed
    moreover have "\<forall>y\<in>set (cells ?h1 a). \<bar>y\<bar> \<le> M"
    proof
      fix y assume "y \<in> set (cells ?h1 a)"
      then obtain x where x: "x \<in> set ?xs" "y = ?f x" unfolding c1 by auto
      have "\<bar>x\<bar> \<le> M" using Suc.prems(2) x(1) by blast
      moreover have "y = x + 2 * pi \<and> x < lo \<or> y = x" using x(2) by (cases "x < lo") simp_all
      ultimately show "\<bar>y\<bar> \<le> M" using Suc.prems(3) pi_gt_zero by linarith
    qed
    ultimately obtain ys where
      ys: "azi_up_any lo ?h1 (Array a) = Some (Inr (put ?h1 (Array a) ys))"
          "list_all2 ?Q (cells ?h1 a) ys"
          "\<forall>y\<in>set ys. \<bar>y\<bar> \<le> M"
      using Suc.IH[OF _ _ Suc.prems(3,4)] by blast
    have "azi_up_any lo h (Array a) = azi_up_any lo ?h1 (Array a)"
      using True by (subst azi_up_any.simps) (simp add: contents_def update_where_self ex)
    also have "\<dots> = Some (Inr (put h (Array a) ys))"
      unfolding ys(1) by (simp add: put_def)
    finally have r: "azi_up_any lo h (Array a) = Some (Inr (put h (Array a) ys))" .
    have "list_all2 (\<lambda>x y. ?Q (?f x) y) ?xs ys"
      using ys(2) unfolding c1 by (simp add: list_all2_map1)
    then have "list_all2 ?Q ?xs ys"
    proof (rule list_all2_mono)
      fix x y assume q: "?Q (?f x) y"
      show "?Q x y"
      proof (cases "x < lo")
        case False
        then show ?thesis using q by simp
      next
        case xl: True
        show ?thesis
        proof (cases "x + 2 * pi < lo")
          case True
          then obtain k :: nat where "lo \<le> y" "y < lo + 2 * pi" "y = x + 2 * pi + 2 * pi * real k"
            using q xl by auto
          then have "lo \<le> y" "y < lo + 2 * pi" "y = x + 2 * pi * real (Suc k)"
            by (simp_all add: algebra_simps)
          then have "lo \<le> y \<and> y < lo + 2 * pi \<and> (\<exists>k::nat. y = x + 2 * pi * real k)"
            by (intro conjI exI[of _ "Suc k"])
          then show ?thesis using xl by simp
        next
          case False
          then have "y = x + 2 * pi * real (Suc 0)" using q xl by simp
          then show ?thesis using xl False by (intro conjI impI exI[of _ "Suc 0"]) simp_all
        qed
      qed
    qed
    then show ?thesis using r ys(3) by blast
  qed
qed


lemma azi_down_any_terminates:
  assumes "\<forall>x\<in>set (cells h a). x - 2 * pi * real n < hi"
    and "\<forall>x\<in>set (cells h a). \<bar>x\<bar> \<le> M" and "\<bar>hi\<bar> + 2 * pi \<le> M" and "M \<le> 2 ^ 50"
  shows "\<exists>ys. azi_down_any hi h (Array a) = Some (Inr (put h (Array a) ys))
            \<and> list_all2 (\<lambda>x y. (x < hi \<longrightarrow> y = x)
                  \<and> (hi \<le> x \<longrightarrow> hi - 2 * pi \<le> y \<and> y < hi \<and> (\<exists>k::nat. y = x - 2 * pi * real k)))
                (cells h a) ys
            \<and> (\<forall>y\<in>set ys. \<bar>y\<bar> \<le> M)"
  using assms
proof (induction n arbitrary: h)
  case 0
  then have "\<not> list_ex (\<lambda>x. hi \<le> x) (contents h (Array a))"
    by (fastforce simp: list_ex_iff contents_def)
  then have "azi_down_any hi h (Array a) = Some (Inr (put h (Array a) (cells h a)))"
    by (subst azi_down_any.simps) (simp add: put_def)
  moreover have "list_all2 (\<lambda>x y. (x < hi \<longrightarrow> y = x)
                  \<and> (hi \<le> x \<longrightarrow> hi - 2 * pi \<le> y \<and> y < hi \<and> (\<exists>k::nat. y = x - 2 * pi * real k)))
                (cells h a) (cells h a)"
    using "0.prems"(1) by (fastforce simp: list_all2_same)
  ultimately show ?case using "0.prems"(2) by blast
next
  case (Suc n)
  let ?xs = "cells h a"
  let ?Q = "\<lambda>x y. (x < hi \<longrightarrow> y = x)
                  \<and> (hi \<le> x \<longrightarrow> hi - 2 * pi \<le> y \<and> y < hi \<and> (\<exists>k::nat. y = x - 2 * pi * real k))"
  show ?case
  proof (cases "list_ex (\<lambda>x. hi \<le> x) ?xs")
    case False
    then have "azi_down_any hi h (Array a) = Some (Inr (put h (Array a) ?xs))"
      by (subst azi_down_any.simps) (simp add: put_def contents_def)
    moreover have "list_all2 ?Q ?xs ?xs"
      using False by (fastforce simp: list_all2_same list_ex_iff)
    ultimately show ?thesis using Suc.prems(2) by blast
  next
    case True
    let ?f = "\<lambda>x. if hi \<le> x then x - 2 * pi else x"
    let ?h1 = "fst (put h (Array a) (map ?f ?xs))"
    have c1: "cells ?h1 a = map ?f ?xs" by (simp add: put_def)
    have ex: "map (\<lambda>x. if hi \<le> x then fadd x (- (2 * pi)) else x) ?xs = map ?f ?xs"
    proof (rule map_cong[OF refl])
      fix x assume "x \<in> set ?xs"
      then have "\<bar>x\<bar> \<le> 2 ^ 50" using Suc.prems(2,4) by fastforce
      then show "(if hi \<le> x then fadd x (- (2 * pi)) else x) = ?f x" by (simp add: fadd_2pi(2))
    qed
    have "\<forall>x\<in>set (cells ?h1 a). x - 2 * pi * real n < hi"
    proof
      fix y assume "y \<in> set (cells ?h1 a)"
      then obtain x where x: "x \<in> set ?xs" "y = ?f x" unfolding c1 by auto
      have s: "x - 2 * pi * real (Suc n) < hi" using Suc.prems(1) x(1) by blast
      have nn: "0 \<le> 2 * pi * real n" by simp
      show "y - 2 * pi * real n < hi"
      proof (cases "hi \<le> x")
        case True
        then show ?thesis using s unfolding x(2) by (simp add: algebra_simps)
      next
        case False
        then have "y = x" using x(2) by simp
        with nn False show ?thesis by linarith
      qed
    qed
    moreover have "\<forall>y\<in>set (cells ?h1 a). \<bar>y\<bar> \<le> M"
    proof
      fix y assume "y \<in> set (cells ?h1 a)"
      then obtain x where x: "x \<in> set ?xs" "y = ?f x" unfolding c1 by auto
      have "\<bar>x\<bar> \<le> M" using Suc.prems(2) x(1) by blast
      moreover have "y = x - 2 * pi \<and> hi \<le> x \<or> y = x" using x(2) by (cases "hi \<le> x") simp_all
      ultimately show "\<bar>y\<bar> \<le> M" using Suc.prems(3) pi_gt_zero by linarith
    qed
    ultimately obtain ys where
      ys: "azi_down_any hi ?h1 (Array a) = Some (Inr (put ?h1 (Array a) ys))"
          "list_all2 ?Q (cells ?h1 a) ys"
          "\<forall>y\<in>set ys. \<bar>y\<bar> \<le> M"
      using Suc.IH[OF _ _ Suc.prems(3,4)] by blast
    have "azi_down_any hi h (Array a) = azi_down_any hi ?h1 (Array a)"
      using True by (subst azi_down_any.simps) (simp add: contents_def update_where_self ex)
    also have "\<dots> = Some (Inr (put h (Array a) ys))"
      unfolding ys(1) by (simp add: put_def)
    finally have r: "azi_down_any hi h (Array a) = Some (Inr (put h (Array a) ys))" .
    have "list_all2 (\<lambda>x y. ?Q (?f x) y) ?xs ys"
      using ys(2) unfolding c1 by (simp add: list_all2_map1)
    then have "list_all2 ?Q ?xs ys"
    proof (rule list_all2_mono)
      fix x y assume q: "?Q (?f x) y"
      show "?Q x y"
      proof (cases "hi \<le> x")
        case False
        then show ?thesis using q by simp
      next
        case xl: True
        show ?thesis
        proof (cases "hi \<le> x - 2 * pi")
          case True
          then obtain k :: nat where "hi - 2 * pi \<le> y" "y < hi" "y = x - 2 * pi - 2 * pi * real k"
            using q xl by auto
          then have "hi - 2 * pi \<le> y" "y < hi" "y = x - 2 * pi * real (Suc k)"
            by (simp_all add: algebra_simps)
          then have "hi - 2 * pi \<le> y \<and> y < hi \<and> (\<exists>k::nat. y = x - 2 * pi * real k)"
            by (intro conjI exI[of _ "Suc k"])
          then show ?thesis using xl by simp
        next
          case False
          then have "y = x - 2 * pi * real (Suc 0)" using q xl by simp
          then show ?thesis using xl False by (intro conjI impI exI[of _ "Suc 0"]) simp_all
        qed
      qed
    qed
    then show ?thesis using r ys(3) by blast
  qed
qed

lemma ex_steps_up: "\<exists>n. \<forall>x\<in>set xs. (lo::real) \<le> x + 2 * pi * real n"
proof (induction xs)
  case Nil
  show ?case by simp
next
  case (Cons x xs)
  then obtain n where n: "\<forall>x\<in>set xs. lo \<le> x + 2 * pi * real n" by blast
  obtain m where m: "(lo - x) / (2 * pi) < real m" using reals_Archimedean2 by blast
  then have mx: "lo \<le> x + 2 * pi * real m" by (simp add: field_simps)
  have "\<forall>y\<in>set (x # xs). lo \<le> y + 2 * pi * real (max m n)"
  proof
    fix y assume y: "y \<in> set (x # xs)"
    have "lo \<le> y + 2 * pi * real m \<or> lo \<le> y + 2 * pi * real n" using y mx n by auto
    moreover have "2 * pi * real m \<le> 2 * pi * real (max m n)" "2 * pi * real n \<le> 2 * pi * real (max m n)"
      by simp_all
    ultimately show "lo \<le> y + 2 * pi * real (max m n)" by linarith
  qed
  then show ?case by blast
qed

lemma ex_steps_down: "\<exists>n. \<forall>x\<in>set xs. x - 2 * pi * real n < (hi::real)"
proof (induction xs)
  case Nil
  show ?case by simp
next
  case (Cons x xs)
  then obtain n where n: "\<forall>x\<in>set xs. x - 2 * pi * real n < hi" by blast
  obtain m where m: "(x - hi) / (2 * pi) < real m" using reals_Archimedean2 by blast
  then have mx: "x - 2 * pi * real m < hi" by (simp add: field_simps)
  have "\<forall>y\<in>set (x # xs). y - 2 * pi * real (max m n) < hi"
  proof
    fix y assume y: "y \<in> set (x # xs)"
    have "y - 2 * pi * real m < hi \<or> y - 2 * pi * real n < hi" using y mx n by auto
    moreover have "2 * pi * real m \<le> 2 * pi * real (max m n)" "2 * pi * real n \<le> 2 * pi * real (max m n)"
      by simp_all
    ultimately show "y - 2 * pi * real (max m n) < hi" by linarith
  qed
  then show ?case by blast
qed

lemma fold_range_unique:
  assumes "lo \<le> y" "y < lo + 2 * pi" "y = x + 2 * pi * of_int k"
  shows "py_fmod (x - lo) (2 * pi) + lo = y"
proof -
  have "x - lo = (y - lo) + 2 * pi * of_int (- k)" using assms(3) by simp
  then have "py_fmod (x - lo) (2 * pi) = y - lo"
    using assms(1,2) by (intro py_fmod_unique[where k = "- k"]) simp_all
  then show ?thesis by simp
qed

text \<open>
  With bounds \<open>2 * pi\<close> apart, and entries and lower bound of magnitude at most \<open>2 ^ 49\<close>, the
  four loops together return the remainder.
\<close>

lemma bounds_2pi:
  assumes "\<bar>lo\<bar> \<le> 2 ^ 49"
  shows "\<bar>lo\<bar> + 2 * pi \<le> 2 ^ 50" and "\<bar>lo + 2 * pi\<bar> + 2 * pi \<le> 2 ^ 50"
proof -
  have "(2::real) ^ 50 = 2 ^ 49 + 2 ^ 49" by simp
  moreover have "(16::real) \<le> 2 ^ 49" by simp
  ultimately show "\<bar>lo\<bar> + 2 * pi \<le> 2 ^ 50" "\<bar>lo + 2 * pi\<bar> + 2 * pi \<le> 2 ^ 50"
    using assms pi_less_4 pi_gt_zero by linarith+
qed

lemma bound_49_50: "\<bar>x\<bar> \<le> 2 ^ 49 \<Longrightarrow> \<bar>x :: real\<bar> \<le> 2 ^ 50"
  by simp

lemma sphadj_phi_scalar_2pi:
  assumes "\<bar>x\<bar> \<le> 2 ^ 49" and "\<bar>lo\<bar> \<le> 2 ^ 49"
  shows "sphadj_phi h (Scalar x) lo (lo + 2 * pi)
     = Some (Inr (h, Scalar (py_fmod (x - lo) (2 * pi) + lo)))"
proof -
  note m = bounds_2pi[OF assms(2)]
  obtain n1 where "lo \<le> x + 2 * pi * real n1" using ex_steps_up[where xs = "[x]" and lo = lo] by auto
  then have "\<exists>y\<in>set (contents h (Scalar x)). lo \<le> y + 2 * pi * real n1"
    by (simp add: contents_def)
  moreover have "\<forall>y\<in>set (contents h (Scalar x)). \<bar>y\<bar> \<le> 2 ^ 50"
    using bound_49_50[OF assms(1)] by (simp add: contents_def)
  ultimately obtain k1 where
    k1: "azi_up_all lo h (Scalar x) = Some (h, Scalar (x + 2 * pi * real k1))"
        "lo \<le> x + 2 * pi * real k1"
        "0 < k1 \<longrightarrow> x + 2 * pi * real k1 < lo + 2 * pi"
        "\<bar>x + 2 * pi * real k1\<bar> \<le> 2 ^ 50"
    using azi_up_all_terminates[OF _ _ m(1) order_refl, of h "Scalar x" n1]
    by (auto simp: contents_def put_def)
  let ?x1 = "x + 2 * pi * real k1"
  obtain n2 where "?x1 - 2 * pi * real n2 < lo + 2 * pi"
    using ex_steps_down[where xs = "[?x1]" and hi = "lo + 2 * pi"] by auto
  then have "\<exists>y\<in>set (contents h (Scalar ?x1)). y - 2 * pi * real n2 < lo + 2 * pi"
    by (simp add: contents_def)
  moreover have "\<forall>y\<in>set (contents h (Scalar ?x1)). \<bar>y\<bar> \<le> 2 ^ 50"
    using k1(4) by (simp add: contents_def)
  ultimately obtain k2 where
    k2: "azi_down_all (lo + 2 * pi) h (Scalar ?x1) = Some (h, Scalar (?x1 - 2 * pi * real k2))"
        "?x1 - 2 * pi * real k2 < lo + 2 * pi"
        "0 < k2 \<longrightarrow> lo \<le> ?x1 - 2 * pi * real k2"
    using azi_down_all_terminates[OF _ _ m(2) order_refl, of h "Scalar ?x1" n2]
    by (auto simp: contents_def put_def)
  let ?x2 = "?x1 - 2 * pi * real k2"
  have lo2: "lo \<le> ?x2"
  proof (cases "0 < k2")
    case True
    then show ?thesis using k2(3) by simp
  next
    case False
    then show ?thesis using k1(2) by simp
  qed
  have "?x2 = x + 2 * pi * of_int (int k1 - int k2)" by (simp add: algebra_simps)
  then have f: "py_fmod (x - lo) (2 * pi) + lo = ?x2"
    using lo2 k2(2) by (intro fold_range_unique) 
  have "sphadj_phi h (Scalar x) lo (lo + 2 * pi) = Some (Inr (h, Scalar ?x2))"
    using lo2 k2(2) by (simp add: sphadj_phi_def k1(1) k2(1) azi_up_any_scalar azi_down_any_scalar)
  then show ?thesis by (simp only: f)
qed

lemma sphadj_phi_array_2pi:
  assumes "cells h a \<noteq> []" and "\<forall>x\<in>set (cells h a). \<bar>x\<bar> \<le> 2 ^ 49" and "\<bar>lo\<bar> \<le> 2 ^ 49"
  shows "sphadj_phi h (Array a) lo (lo + 2 * pi)
     = Some (Inr (put h (Array a) (map (\<lambda>x. py_fmod (x - lo) (2 * pi) + lo) (cells h a))))"
proof -
  let ?xs = "cells h a" and ?p = "Array a" and ?hi = "lo + 2 * pi"
  let ?H = "\<lambda>ys. h\<lparr>cells := (cells h)(a := ys)\<rparr>"
  note m = bounds_2pi[OF assms(3)]
  have pH: "\<And>zs ys. put (?H zs) ?p ys = (?H ys, ?p)" by (simp add: put_def)
  have ph: "\<And>ys. put h ?p ys = (?H ys, ?p)" by (simp add: put_def)
  have cH: "\<And>ys. contents (?H ys) ?p = ys" by (simp add: contents_def)
  have ne: "contents h ?p \<noteq> []" using assms(1) by (simp add: contents_def)
  have b0: "\<forall>x\<in>set (contents h ?p). \<bar>x\<bar> \<le> 2 ^ 50"
    using assms(2) bound_49_50 by (auto simp: contents_def)
  obtain n1 where "\<forall>x\<in>set (contents h ?p). lo \<le> x + 2 * pi * real n1"
    using ex_steps_up by blast
  then have "\<exists>x\<in>set (contents h ?p). lo \<le> x + 2 * pi * real n1"
    using ne by (cases "contents h ?p") auto
  from azi_up_all_terminates[OF this b0 m(1) order_refl] obtain k1 where
    "azi_up_all lo h ?p = Some (put h ?p (map (\<lambda>x. x + 2 * pi * real k1) (contents h ?p)))"
    and "\<forall>x\<in>set (contents h ?p). \<bar>x + 2 * pi * real k1\<bar> \<le> 2 ^ 50"
    by blast
  then have k1: "azi_up_all lo h ?p = Some (?H (map (\<lambda>x. x + 2 * pi * real k1) ?xs), ?p)"
    and b1: "\<forall>x\<in>set ?xs. \<bar>x + 2 * pi * real k1\<bar> \<le> 2 ^ 50"
    by (simp_all add: ph contents_def)
  let ?xs1 = "map (\<lambda>x. x + 2 * pi * real k1) ?xs"
  have ne1: "?xs1 \<noteq> []" using assms(1) by simp
  have b1': "\<forall>x\<in>set (contents (?H ?xs1) ?p). \<bar>x\<bar> \<le> 2 ^ 50"
    unfolding cH using b1 by simp
  obtain n2 where "\<forall>x\<in>set (contents (?H ?xs1) ?p). x - 2 * pi * real n2 < ?hi"
    using ex_steps_down by blast
  then have "\<exists>x\<in>set (contents (?H ?xs1) ?p). x - 2 * pi * real n2 < ?hi"
    using ne1 unfolding cH by (cases ?xs1) auto
  from azi_down_all_terminates[OF this b1' m(2) order_refl] obtain k2 where
    "azi_down_all ?hi (?H ?xs1) ?p
       = Some (put (?H ?xs1) ?p (map (\<lambda>x. x - 2 * pi * real k2) (contents (?H ?xs1) ?p)))"
    and "\<forall>x\<in>set (contents (?H ?xs1) ?p). \<bar>x - 2 * pi * real k2\<bar> \<le> 2 ^ 50"
    by blast
  then have k2: "azi_down_all ?hi (?H ?xs1) ?p
       = Some (?H (map (\<lambda>x. x - 2 * pi * real k2) ?xs1), ?p)"
    and b2: "\<forall>x\<in>set ?xs1. \<bar>x - 2 * pi * real k2\<bar> \<le> 2 ^ 50"
    unfolding pH cH by blast+
  let ?xs2 = "map (\<lambda>x. x - 2 * pi * real k2) ?xs1"
  have c2: "cells (?H ?xs2) a = ?xs2" by simp
  have b2': "\<forall>x\<in>set (cells (?H ?xs2) a). \<bar>x\<bar> \<le> 2 ^ 50"
    unfolding c2 using b2 by simp
  obtain n3 where "\<forall>x\<in>set (cells (?H ?xs2) a). lo \<le> x + 2 * pi * real n3"
    using ex_steps_up by blast
  from azi_up_any_terminates[OF this b2' m(1) order_refl] obtain ys3 where
    k3: "azi_up_any lo (?H ?xs2) ?p = Some (Inr (?H ys3, ?p))"
    and q3: "list_all2 (\<lambda>x y. (lo \<le> x \<longrightarrow> y = x)
                  \<and> (x < lo \<longrightarrow> lo \<le> y \<and> y < lo + 2 * pi \<and> (\<exists>k::nat. y = x + 2 * pi * real k)))
                ?xs2 ys3"
    and b3: "\<forall>y\<in>set ys3. \<bar>y\<bar> \<le> 2 ^ 50"
    unfolding c2 pH by blast
  have c3: "cells (?H ys3) a = ys3" by simp
  have b3': "\<forall>x\<in>set (cells (?H ys3) a). \<bar>x\<bar> \<le> 2 ^ 50"
    unfolding c3 using b3 .
  obtain n4 where "\<forall>x\<in>set (cells (?H ys3) a). x - 2 * pi * real n4 < ?hi"
    using ex_steps_down by blast
  from azi_down_any_terminates[OF this b3' m(2) order_refl] obtain ys4 where
    k4: "azi_down_any ?hi (?H ys3) ?p = Some (Inr (?H ys4, ?p))"
    and q4: "list_all2 (\<lambda>x y. (x < ?hi \<longrightarrow> y = x)
                  \<and> (?hi \<le> x \<longrightarrow> ?hi - 2 * pi \<le> y \<and> y < ?hi \<and> (\<exists>k::nat. y = x - 2 * pi * real k)))
                ys3 ys4"
    unfolding c3 pH by blast
  have r: "sphadj_phi h ?p lo ?hi = Some (Inr (put h ?p ys4))"
    unfolding sphadj_phi_def k1 option.case prod.case k2 k3 sum.case k4 ph ..
  have l3: "length ys3 = length ?xs" using q3 by (auto dest: list_all2_lengthD)
  have l4: "length ys4 = length ?xs" using q4 l3 by (auto dest: list_all2_lengthD)
  have "ys4 = map (\<lambda>x. py_fmod (x - lo) (2 * pi) + lo) ?xs"
  proof (rule nth_equalityI)
    show "length ys4 = length (map (\<lambda>x. py_fmod (x - lo) (2 * pi) + lo) ?xs)" using l4 by simp
  next
    fix i assume "i < length ys4"
    then have i: "i < length ?xs" using l4 by simp
    let ?x = "?xs ! i"
    let ?x2 = "?x + 2 * pi * real k1 - 2 * pi * real k2"
    have x2: "?xs2 ! i = ?x2" using i by simp
    have p3: "(lo \<le> ?x2 \<longrightarrow> ys3 ! i = ?x2)
              \<and> (?x2 < lo \<longrightarrow> lo \<le> ys3 ! i \<and> ys3 ! i < lo + 2 * pi
                    \<and> (\<exists>k::nat. ys3 ! i = ?x2 + 2 * pi * real k))"
      using list_all2_nthD[OF q3, of i] i unfolding x2 by simp
    have p4: "(ys3 ! i < ?hi \<longrightarrow> ys4 ! i = ys3 ! i)
              \<and> (?hi \<le> ys3 ! i \<longrightarrow> ?hi - 2 * pi \<le> ys4 ! i \<and> ys4 ! i < ?hi
                    \<and> (\<exists>k::nat. ys4 ! i = ys3 ! i - 2 * pi * real k))"
      using list_all2_nthD[OF q4, of i] i l3 by simp
    obtain k3 :: nat where y3: "lo \<le> ys3 ! i" "ys3 ! i = ?x2 + 2 * pi * real k3"
    proof (cases "lo \<le> ?x2")
      case True
      then have "lo \<le> ys3 ! i" "ys3 ! i = ?x2 + 2 * pi * real (0::nat)" using p3 by simp_all
      then show ?thesis using that by blast
    next
      case False
      then show ?thesis using p3 that by auto
    qed
    obtain k4 :: nat where y4: "lo \<le> ys4 ! i" "ys4 ! i < ?hi" "ys4 ! i = ys3 ! i - 2 * pi * real k4"
    proof (cases "ys3 ! i < ?hi")
      case True
      then have "lo \<le> ys4 ! i" "ys4 ! i < ?hi" "ys4 ! i = ys3 ! i - 2 * pi * real (0::nat)"
        using p4 y3(1) by simp_all
      then show ?thesis using that by blast
    next
      case False
      then show ?thesis using p4 that by auto
    qed
    have "ys4 ! i = ?x + 2 * pi * of_int (int k1 - int k2 + int k3 - int k4)"
      unfolding y4(3) y3(2) by (simp add: algebra_simps)
    then have "py_fmod (?x - lo) (2 * pi) + lo = ys4 ! i"
      using y4(1,2) by (intro fold_range_unique)
    then show "ys4 ! i = map (\<lambda>x. py_fmod (x - lo) (2 * pi) + lo) ?xs ! i"
      using i by simp
  qed
  then show ?thesis using r by simp
qed

lemma sphadj_phi_width_2pi:
  assumes "contents h phi \<noteq> []" and "\<forall>x\<in>set (contents h phi). \<bar>x\<bar> \<le> 2 ^ 49"
    and "\<bar>lo\<bar> \<le> 2 ^ 49"
  shows "sphadj_phi h phi lo (lo + 2 * pi)
     = Some (Inr (put h phi (map (\<lambda>x. py_fmod (x - lo) (2 * pi) + lo) (contents h phi))))"
proof (cases phi)
  case (Scalar x)
  then show ?thesis using assms(2,3) by (simp add: sphadj_phi_scalar_2pi put_def contents_def)
next
  case (Array a)
  then show ?thesis using assms sphadj_phi_array_2pi[of h a lo] by (simp add: contents_def)
qed

subsection \<open>The azimuth block as a remainder\<close>

lemma sphadj_no_theta:
  "sphadj h None (Some phi) theta_min theta_max phi_min phi_max =
     (case sphadj_phi h phi phi_min phi_max of
        None \<Rightarrow> None
      | Some (Inl e) \<Rightarrow> Some (Inl e)
      | Some (Inr (h2, p2)) \<Rightarrow> Some (Inr (h2, None, Some p2)))"
  by (simp add: sphadj_def)

lemma aziadj_2pi:
  assumes "contents h phi \<noteq> []" and "\<forall>x\<in>set (contents h phi). \<bar>x\<bar> \<le> 2 ^ 49"
  shows "aziadj h phi =
     Some (Inr (fst (put h phi (map (\<lambda>x. py_fmod (x + pi) (2 * pi) - pi) (contents h phi))),
                Some (snd (put h phi (map (\<lambda>x. py_fmod (x + pi) (2 * pi) - pi) (contents h phi))))))"
proof -
  have "\<bar>- pi\<bar> \<le> 2 ^ 49" using pi_less_4 pi_gt_zero by simp
  from sphadj_phi_width_2pi[OF assms this] show ?thesis
    by (simp add: aziadj_def sphadj_default_def sphadj_no_theta split_def)
qed




subsection \<open>Inputs on which the loops never exit\<close>

text \<open>
  On an empty array \<^verbatim>\<open>(phi < phi_min).all()\<close> is vacuously true and stays so: the first
  loop never exits.
\<close>

lemma azi_up_all_returns_nonempty:
  assumes "azi_up_all lo h phi = Some r"
  shows "contents h phi \<noteq> []"
  using assms
proof (rule azi_up_all.raw_induct[rotated])
  fix f phi_min h phi r
  assume ih: "\<And>m g p y. f m g p = Some y \<Longrightarrow> contents g p \<noteq> []"
    and eq: "(if list_all (\<lambda>x. x < phi_min) (contents h phi)
              then f phi_min (fst (iadd (2 * pi) h phi)) (snd (iadd (2 * pi) h phi))
              else Some (h, phi)) = Some r"
  show "contents h phi \<noteq> []"
  proof (cases "list_all (\<lambda>x. x < phi_min) (contents h phi)")
    case True
    then have "f phi_min (fst (iadd (2 * pi) h phi)) (snd (iadd (2 * pi) h phi)) = Some r"
      using eq by simp
    from ih[OF this] have "map (\<lambda>x. fadd x (2 * pi)) (contents h phi) \<noteq> []"
      by (simp add: iadd_put contents_put)
    then show ?thesis by simp
  next
    case False
    then show ?thesis by auto
  qed
qed

lemma aziadj_empty_array_diverges:
  assumes "cells h a = []"
  shows "aziadj h (Array a) = None"
proof -
  have "azi_up_all (- pi) h (Array a) = None"
  proof (cases "azi_up_all (- pi) h (Array a)")
    case (Some r)
    from azi_up_all_returns_nonempty[OF this] show ?thesis using assms by (simp add: contents_def)
  qed simp
  then show ?thesis
    by (simp add: aziadj_def sphadj_default_def sphadj_no_theta sphadj_phi_def)
qed

text \<open>
  At \<open>10 ^ 17\<close> the doubles are 16 apart, \<^verbatim>\<open>phi -= 2 * np.pi\<close> leaves \<open>phi\<close> as it is, and the
  second loop never exits.
\<close>

lemma azi_down_all_absorbed:
  assumes "azi_down_all hi h phi = Some r"
  shows "\<not> (phi = Scalar (10 ^ 17) \<and> hi \<le> 10 ^ 17)"
  using assms
proof (rule azi_down_all.raw_induct[rotated])
  fix f phi_max h phi r
  assume ih: "\<And>m g p y. f m g p = Some y \<Longrightarrow> \<not> (p = Scalar (10 ^ 17) \<and> m \<le> 10 ^ 17)"
    and eq: "(if list_all (\<lambda>x. phi_max \<le> x) (contents h phi)
              then f phi_max (fst (iadd (- (2 * pi)) h phi)) (snd (iadd (- (2 * pi)) h phi))
              else Some (h, phi)) = Some r"
  show "\<not> (phi = Scalar (10 ^ 17) \<and> phi_max \<le> 10 ^ 17)"
  proof
    assume a: "phi = Scalar (10 ^ 17) \<and> phi_max \<le> 10 ^ 17"
    then have "iadd (- (2 * pi)) h phi = (h, phi)"
      by (simp add: iadd_def fadd_absorbed[simplified])
    moreover have "list_all (\<lambda>x. phi_max \<le> x) (contents h phi)"
      using a by (simp add: contents_def)
    ultimately have "f phi_max h phi = Some r" using eq by simp
    from ih[OF this] show False using a by simp
  qed
qed

lemma aziadj_absorbed_diverges: "aziadj h (Scalar (10 ^ 17)) = None"
proof -
  have "\<not> (10 ^ 17 < - pi)" using pi_gt_zero by (smt (verit) zero_le_power)
  then have u: "azi_up_all (- pi) h (Scalar (10 ^ 17)) = Some (h, Scalar (10 ^ 17))"
    by (subst azi_up_all.simps) (simp add: contents_def)
  have "pi \<le> 10 ^ 17" using pi_less_4 by simp
  then have d: "azi_down_all pi h (Scalar (10 ^ 17)) = None"
    using azi_down_all_absorbed[of pi h "Scalar (10 ^ 17)"]
    by (cases "azi_down_all pi h (Scalar (10 ^ 17))") auto
  show ?thesis
    by (simp add: aziadj_def sphadj_default_def sphadj_no_theta sphadj_phi_def u[simplified] d[simplified])
qed

subsection \<open>What \<^verbatim>\<open>sphadj\<close> writes to the store\<close>

lemma untouched_refl [simp]: "untouched A h h"
  by (simp add: untouched_def)

lemma untouched_trans: "untouched A h h1 \<Longrightarrow> untouched A h1 h2 \<Longrightarrow> untouched A h h2"
  by (auto simp: untouched_def)

lemma untouched_mono: "untouched A h h' \<Longrightarrow> A \<subseteq> B \<Longrightarrow> untouched B h h'"
  by (auto simp: untouched_def)

lemma untouched_put: "addrs (Some v) \<subseteq> A \<Longrightarrow> untouched A h (fst (put h v ys))"
  by (cases v) (auto simp: untouched_def put_def addrs_def)

lemma untouched_rsub_new: "untouched A h (fst (rsub_new c h v))"
  by (cases v) (auto simp: untouched_def rsub_new_def)

lemma untouched_update_where: "update_where m f h a = Inr h' \<Longrightarrow> a \<in> A \<Longrightarrow> untouched A h h'"
  by (auto simp: untouched_def update_where_def split: if_splits)

lemma snd_put_array [simp]: "snd (put h (Array a) ys) = Array a"
  by (simp add: put_def)

lemma azi_up_all_put:
  assumes "azi_up_all lo h phi = Some r"
  shows "\<exists>ys. r = put h phi ys"
  using assms
proof (rule azi_up_all.raw_induct[rotated])
  fix f phi_min h phi r
  assume ih: "\<And>m g p y. f m g p = Some y \<Longrightarrow> \<exists>ys. y = put g p ys"
    and eq: "(if list_all (\<lambda>x. x < phi_min) (contents h phi)
              then f phi_min (fst (iadd (2 * pi) h phi)) (snd (iadd (2 * pi) h phi))
              else Some (h, phi)) = Some r"
  show "\<exists>ys. r = put h phi ys"
  proof (cases "list_all (\<lambda>x. x < phi_min) (contents h phi)")
    case True
    then have "f phi_min (fst (iadd (2 * pi) h phi)) (snd (iadd (2 * pi) h phi)) = Some r"
      using eq by simp
    from ih[OF this] show ?thesis by (auto simp: iadd_put)
  next
    case False
    then have "r = put h phi (contents h phi)" using eq by simp
    then show ?thesis by blast
  qed
qed

lemma azi_down_all_put:
  assumes "azi_down_all hi h phi = Some r"
  shows "\<exists>ys. r = put h phi ys"
  using assms
proof (rule azi_down_all.raw_induct[rotated])
  fix f phi_max h phi r
  assume ih: "\<And>m g p y. f m g p = Some y \<Longrightarrow> \<exists>ys. y = put g p ys"
    and eq: "(if list_all (\<lambda>x. phi_max \<le> x) (contents h phi)
              then f phi_max (fst (iadd (- (2 * pi)) h phi)) (snd (iadd (- (2 * pi)) h phi))
              else Some (h, phi)) = Some r"
  show "\<exists>ys. r = put h phi ys"
  proof (cases "list_all (\<lambda>x. phi_max \<le> x) (contents h phi)")
    case True
    then have "f phi_max (fst (iadd (- (2 * pi)) h phi)) (snd (iadd (- (2 * pi)) h phi)) = Some r"
      using eq by simp
    from ih[OF this] show ?thesis by (auto simp: iadd_put)
  next
    case False
    then have "r = put h phi (contents h phi)" using eq by simp
    then show ?thesis by blast
  qed
qed

lemma azi_up_any_put:
  assumes "azi_up_any lo h phi = Some r"
  shows "\<forall>s. r = Inr s \<longrightarrow> (\<exists>ys. s = put h phi ys)"
  using assms
proof (rule azi_up_any.raw_induct[rotated])
  fix f phi_min h phi r
  assume ih: "\<And>m g p y. f m g p = Some y \<Longrightarrow> \<forall>s. y = Inr s \<longrightarrow> (\<exists>ys. s = put g p ys)"
    and eq: "(if list_ex (\<lambda>x. x < phi_min) (contents h phi)
              then case phi of
                     Scalar x \<Rightarrow> Some (Inl TypeError)
                   | Array a \<Rightarrow>
                       (case update_where (map (\<lambda>x. x < phi_min) (cells h a))
                               (\<lambda>x. fadd x (2 * pi)) h a of
                          Inl e \<Rightarrow> Some (Inl e)
                        | Inr h' \<Rightarrow> f phi_min h' phi)
              else Some (Inr (h, phi))) = Some r"
  show "\<forall>s. r = Inr s \<longrightarrow> (\<exists>ys. s = put h phi ys)"
  proof (cases "list_ex (\<lambda>x. x < phi_min) (contents h phi)")
    case False
    then have "r = Inr (put h phi (contents h phi))" using eq by simp
    then show ?thesis by blast
  next
    case True
    show ?thesis
    proof (cases phi)
      case (Scalar x)
      then show ?thesis using True eq by auto
    next
      case (Array a)
      let ?h1 = "fst (put h (Array a) (map (\<lambda>x. if x < phi_min then fadd x (2 * pi) else x) (cells h a)))"
      have "f phi_min ?h1 (Array a) = Some r"
        using True eq Array by (simp add: update_where_self)
      from ih[OF this] show ?thesis unfolding Array by (auto simp: put_def)
    qed
  qed
qed

lemma azi_down_any_put:
  assumes "azi_down_any hi h phi = Some r"
  shows "\<forall>s. r = Inr s \<longrightarrow> (\<exists>ys. s = put h phi ys)"
  using assms
proof (rule azi_down_any.raw_induct[rotated])
  fix f phi_max h phi r
  assume ih: "\<And>m g p y. f m g p = Some y \<Longrightarrow> \<forall>s. y = Inr s \<longrightarrow> (\<exists>ys. s = put g p ys)"
    and eq: "(if list_ex (\<lambda>x. phi_max \<le> x) (contents h phi)
              then case phi of
                     Scalar x \<Rightarrow> Some (Inl TypeError)
                   | Array a \<Rightarrow>
                       (case update_where (map (\<lambda>x. phi_max \<le> x) (cells h a))
                               (\<lambda>x. fadd x (- (2 * pi))) h a of
                          Inl e \<Rightarrow> Some (Inl e)
                        | Inr h' \<Rightarrow> f phi_max h' phi)
              else Some (Inr (h, phi))) = Some r"
  show "\<forall>s. r = Inr s \<longrightarrow> (\<exists>ys. s = put h phi ys)"
  proof (cases "list_ex (\<lambda>x. phi_max \<le> x) (contents h phi)")
    case False
    then have "r = Inr (put h phi (contents h phi))" using eq by simp
    then show ?thesis by blast
  next
    case True
    show ?thesis
    proof (cases phi)
      case (Scalar x)
      then show ?thesis using True eq by auto
    next
      case (Array a)
      let ?h1 = "fst (put h (Array a) (map (\<lambda>x. if phi_max \<le> x then fadd x (- (2 * pi)) else x) (cells h a)))"
      have "f phi_max ?h1 (Array a) = Some r"
        using True eq Array by (simp add: update_where_self)
      from ih[OF this] show ?thesis unfolding Array by (auto simp: put_def)
    qed
  qed
qed

lemma sphadj_phi_put:
  assumes "sphadj_phi h phi lo hi = Some (Inr s)"
  shows "\<exists>ys. s = put h phi ys"
proof -
  from assms obtain r1 where r1: "azi_up_all lo h phi = Some r1"
    by (auto simp: sphadj_phi_def split: option.splits)
  then obtain ys1 where y1: "r1 = put h phi ys1" using azi_up_all_put by blast
  from assms r1 obtain r2 where r2: "azi_down_all hi (fst r1) (snd r1) = Some r2"
    by (auto simp: sphadj_phi_def split: option.splits prod.splits)
  then obtain ys2 where y2: "r2 = put h phi ys2" using azi_down_all_put y1 by fastforce
  from assms r1 r2 obtain r3 where r3: "azi_up_any lo (fst r2) (snd r2) = Some (Inr r3)"
    by (auto simp: sphadj_phi_def split: option.splits prod.splits sum.splits)
  then obtain ys3 where y3: "r3 = put h phi ys3" using azi_up_any_put y2 by fastforce
  from assms r1 r2 r3 have "azi_down_any hi (fst r3) (snd r3) = Some (Inr s)"
    by (auto simp: sphadj_phi_def split: option.splits prod.splits sum.splits)
  then show ?thesis using azi_down_any_put y3 by fastforce
qed


lemma shift_all_frame:
  assumes "shift_all h phi = (h', phi')"
  shows "untouched (addrs phi) h h'" and "addrs phi' = addrs phi"
    and "\<forall>b. phi = Some (Array b) \<longrightarrow> phi' = phi" and "phi = None \<longleftrightarrow> phi' = None"
proof -
  show "untouched (addrs phi) h h'"
  proof (cases phi)
    case None
    then show ?thesis using assms by (simp add: shift_all_def)
  next
    case (Some p)
    show ?thesis
    proof (cases "np_all h phi")
      case True
      then have "h' = fst (put h p (map (\<lambda>x. fadd x pi) (contents h p)))"
        using assms Some by (auto simp: shift_all_def iadd_put split: prod.splits)
      then show ?thesis using untouched_put[of p "addrs phi" h] Some by simp
    next
      case False
      then show ?thesis using assms Some by (simp add: shift_all_def)
    qed
  qed
  show "addrs phi' = addrs phi"
    using assms
    by (auto simp: shift_all_def iadd_def addrs_def split: option.splits if_splits prod.splits pyval.splits)
  show "\<forall>b. phi = Some (Array b) \<longrightarrow> phi' = phi"
    using assms by (auto simp: shift_all_def iadd_def split: option.splits if_splits prod.splits)
  show "phi = None \<longleftrightarrow> phi' = None"
    using assms by (auto simp: shift_all_def split: option.splits if_splits prod.splits)
qed

lemma shift_where_frame: "shift_where m h phi = Inr h' \<Longrightarrow> untouched (addrs phi) h h'"
  by (auto simp: shift_where_def addrs_def split: option.splits if_splits pyval.splits
           intro: untouched_update_where)

lemma sphadj_theta_frame:
  assumes "sphadj_theta h theta phi theta_min theta_max = Inr (h', theta', phi')"
  shows "untouched (addrs (Some theta) \<union> addrs phi) h h'"
    and "addrs phi' = addrs phi"
    and "\<forall>b. phi = Some (Array b) \<longrightarrow> phi' = phi"
    and "phi = None \<longleftrightarrow> phi' = None"
    and "\<forall>a. theta = Array a \<longrightarrow> theta' = Array a \<or> theta' = Array (next_free h)"
proof -
  let ?A = "addrs (Some theta) \<union> addrs phi"
  have fold_all: "untouched ?A h h' \<and> addrs phi' = addrs phi
          \<and> (\<forall>b. phi = Some (Array b) \<longrightarrow> phi' = phi) \<and> (phi = None \<longleftrightarrow> phi' = None)
          \<and> (\<forall>a. theta = Array a \<longrightarrow> theta' = Array a \<or> theta' = Array (next_free h))"
    if r: "rsub_new c h theta = (h1, theta')" and s: "shift_all h1 phi = (h', phi')" for c h1
  proof -
    have "untouched ?A h h1" using untouched_rsub_new[of ?A h c theta] r by simp
    moreover have "untouched ?A h1 h'"
      using shift_all_frame(1)[OF s] by (rule untouched_mono) simp
    ultimately have "untouched ?A h h'" by (rule untouched_trans)
    moreover have "\<forall>a. theta = Array a \<longrightarrow> theta' = Array (next_free h)"
      using r by (auto simp: rsub_new_def)
    ultimately show ?thesis using shift_all_frame(2,3,4)[OF s] by blast
  qed
  have fold_some: "untouched ?A h h'"
    if u: "update_where m f h a = Inr h1" and s: "shift_where m' h1 phi = Inr h'"
      and t: "theta = Array a" for m m' f a h1
  proof -
    have "untouched ?A h h1" using u t by (intro untouched_update_where) (auto simp: addrs_def)
    moreover have "untouched ?A h1 h'"
      using shift_where_frame[OF s] by (rule untouched_mono) simp
    ultimately show ?thesis by (rule untouched_trans)
  qed
  have all: "untouched ?A h h' \<and> addrs phi' = addrs phi
          \<and> (\<forall>b. phi = Some (Array b) \<longrightarrow> phi' = phi) \<and> (phi = None \<longleftrightarrow> phi' = None)
          \<and> (\<forall>a. theta = Array a \<longrightarrow> theta' = Array a \<or> theta' = Array (next_free h))"
    using assms fold_all fold_some
    by (auto simp: sphadj_theta_def split: if_splits prod.splits pyval.splits sum.splits)
  show "untouched (addrs (Some theta) \<union> addrs phi) h h'" using all by blast
  show "addrs phi' = addrs phi" using all by blast
  show "\<forall>b. phi = Some (Array b) \<longrightarrow> phi' = phi" using all by blast
  show "phi = None \<longleftrightarrow> phi' = None" using all by blast
  show "\<forall>a. theta = Array a \<longrightarrow> theta' = Array a \<or> theta' = Array (next_free h)" using all by blast
qed

lemma sphadj_with_theta:
  "sphadj h (Some t) phi theta_min theta_max phi_min phi_max =
     (case sphadj_theta h t phi theta_min theta_max of
        Inl e \<Rightarrow> Some (Inl e)
      | Inr (h1, t1, phi1) \<Rightarrow>
          (case phi1 of
             None \<Rightarrow> Some (Inr (h1, Some t1, None))
           | Some p \<Rightarrow>
               (case sphadj_phi h1 p phi_min phi_max of
                  None \<Rightarrow> None
                | Some (Inl e) \<Rightarrow> Some (Inl e)
                | Some (Inr (h2, p2)) \<Rightarrow> Some (Inr (h2, Some t1, Some p2)))))"
  by (simp add: sphadj_def split: sum.splits prod.splits)

lemma sphadj_phi_frame:
  assumes "sphadj_phi h1 p lo hi = Some (Inr (h', p2))" and "addrs (Some p) \<subseteq> A"
  shows "untouched A h1 h'" and "\<forall>b. p = Array b \<longrightarrow> p2 = Array b"
proof -
  from sphadj_phi_put[OF assms(1)] obtain ys where ys: "(h', p2) = put h1 p ys" by blast
  then have e: "h' = fst (put h1 p ys)" "p2 = snd (put h1 p ys)"
    by (metis fst_conv, metis snd_conv)
  show "untouched A h1 h'" unfolding e using assms(2) by (rule untouched_put)
  show "\<forall>b. p = Array b \<longrightarrow> p2 = Array b" unfolding e by simp
qed

lemma sphadj_frame:
  assumes "sphadj h theta phi theta_min theta_max phi_min phi_max = Some (Inr (h', theta', phi'))"
  shows "untouched (addrs theta \<union> addrs phi) h h'"
    and "\<forall>b. phi = Some (Array b) \<longrightarrow> phi' = Some (Array b)"
    and "\<forall>a. theta = Some (Array a) \<longrightarrow> theta' = Some (Array a) \<or> theta' = Some (Array (next_free h))"
proof -
  let ?A = "addrs theta \<union> addrs phi"
  have "untouched ?A h h' \<and> (\<forall>b. phi = Some (Array b) \<longrightarrow> phi' = Some (Array b))
      \<and> (\<forall>a. theta = Some (Array a) \<longrightarrow> theta' = Some (Array a) \<or> theta' = Some (Array (next_free h)))"
  proof (cases theta)
    case None
    show ?thesis
    proof (cases phi)
      case n: None
      then show ?thesis using assms None by (simp add: sphadj_def)
    next
      case (Some p)
      then obtain p2 where p2: "sphadj_phi h p phi_min phi_max = Some (Inr (h', p2))" "phi' = Some p2"
        using assms None by (auto simp: sphadj_no_theta split: option.splits sum.splits)
      have "addrs (Some p) \<subseteq> ?A" using Some by simp
      from sphadj_phi_frame[OF p2(1) this] show ?thesis using None Some p2(2) by simp
    qed
  next
    case (Some t)
    from assms obtain h1 t1 phi1 where e: "sphadj_theta h t phi theta_min theta_max = Inr (h1, t1, phi1)"
      unfolding Some sphadj_with_theta by (cases "sphadj_theta h t phi theta_min theta_max") auto
    note f = sphadj_theta_frame[OF e]
    have u1: "untouched ?A h h1" using f(1) Some by (simp add: addrs_def)
    have th: "\<forall>a. theta = Some (Array a) \<longrightarrow> Some t1 = Some (Array a) \<or> Some t1 = Some (Array (next_free h))"
      using f(5) Some by simp
    show ?thesis
    proof (cases phi1)
      case None
      then have "h' = h1" "theta' = Some t1" "phi' = None"
        using assms e unfolding Some sphadj_with_theta by simp_all
      moreover have "phi = None" using f(4) None by simp
      ultimately show ?thesis using u1 th by simp
    next
      case p: (Some p)
      then obtain p2 where p2: "sphadj_phi h1 p phi_min phi_max = Some (Inr (h', p2))"
          "phi' = Some p2" "theta' = Some t1"
        using assms e unfolding Some sphadj_with_theta
        by (auto split: option.splits sum.splits)
      have "addrs (Some p) \<subseteq> ?A" using f(2) p by simp
      from sphadj_phi_frame[OF p2(1) this] have
        u2: "untouched ?A h1 h'" and i2: "\<forall>b. p = Array b \<longrightarrow> p2 = Array b" by simp_all
      have "untouched ?A h h'" using u1 u2 by (rule untouched_trans)
      moreover have "\<forall>b. phi = Some (Array b) \<longrightarrow> phi' = Some (Array b)"
        using f(3) p i2 p2(2) by auto
      ultimately show ?thesis using th p2(3) by simp
    qed
  qed
  then show "untouched ?A h h'"
    and "\<forall>b. phi = Some (Array b) \<longrightarrow> phi' = Some (Array b)"
    and "\<forall>a. theta = Some (Array a) \<longrightarrow> theta' = Some (Array a) \<or> theta' = Some (Array (next_free h))"
    by simp_all
qed

subsection \<open>The elevation block\<close>

lemma sphadj_theta_in_range:
  assumes "contents h theta \<noteq> []"
    and "\<not> list_ex (\<lambda>t. theta_max \<le> t) (contents h theta)"
    and "\<not> list_ex (\<lambda>t. t < theta_min) (contents h theta)"
  shows "sphadj_theta h theta phi theta_min theta_max = Inr (h, theta, phi)"
proof -
  obtain x xs where c: "contents h theta = x # xs" using assms(1) by (cases "contents h theta") auto
  have "\<not> list_all (\<lambda>t. theta_max \<le> t) (contents h theta)"
       "\<not> list_all (\<lambda>t. t < theta_min) (contents h theta)"
    using assms(2,3) unfolding c by auto
  then show ?thesis using assms(2,3) by (simp add: sphadj_theta_def)
qed

lemma fold_4: "py_fmod (4 + pi) (2 * pi) - pi = 4 - 2 * pi"
  using pi_less_4 pi_ge_two by (intro fold_unique[where k = "- 1"]) simp_all

lemma sphadj_example:
  "sphadj_default (heap2 [0] [4]) (Some (Array 0)) (Some (Array 1))
     = Some (Inr (heap2 [0] [4 - 2 * pi], Some (Array 0), Some (Array 1)))"
proof -
  let ?h = "heap2 [0] [4]"
  have t: "sphadj_theta ?h (Array 0) (Some (Array 1)) (- (pi / 2)) (pi / 2)
             = Inr (?h, Array 0, Some (Array 1))"
    by (rule sphadj_theta_in_range) (simp_all add: contents_def heap2_def not_le)
  have "cells ?h 1 \<noteq> []" "\<forall>x\<in>set (cells ?h 1). \<bar>x\<bar> \<le> 2 ^ 49" "\<bar>- pi\<bar> \<le> 2 ^ 49"
    using pi_less_4 pi_gt_zero by (simp_all add: heap2_def)
  from sphadj_phi_array_2pi[OF this]
  have p: "sphadj_phi ?h (Array 1) (- pi) pi = Some (Inr (heap2 [0] [4 - 2 * pi], Array 1))"
    by (simp add: put_def heap2_def fold_4)
  show ?thesis
    by (simp only: sphadj_default_def sphadj_with_theta t p sum.case prod.case option.case)
qed

lemma aziadj_example:
  "aziadj (heap2 [7] [4]) (Array 1) = Some (Inr (heap2 [7] [4 - 2 * pi], Some (Array 1)))"
proof -
  have "contents (heap2 [7] [4]) (Array 1) \<noteq> []"
    "\<forall>x\<in>set (contents (heap2 [7] [4]) (Array 1)). \<bar>x\<bar> \<le> 2 ^ 49"
    by (simp_all add: contents_def heap2_def)
  from aziadj_2pi[OF this] show ?thesis
    by (simp add: put_def heap2_def contents_def fold_4)
qed

text \<open>
  C9 (amended). \<open>sphadj\<close> (and with it \<open>eleadj\<close> and \<open>aziadj\<close>) leaves every array of the
  store unchanged except the arrays passed as \<open>theta\<close> and \<open>phi\<close>; these it may
  overwrite in place. An array \<open>phi\<close> is returned as the very same object, so the caller's
  array holds the adjusted azimuth after the call; \<open>theta\<close> is returned either as the
  caller's array or as a newly allocated one. Scalars are values and are never modified.
\<close>

theorem sphadj_writes_only_its_array_arguments:
  "(sphadj h theta phi theta_min theta_max phi_min phi_max = Some (Inr (h', theta', phi')) \<longrightarrow>
      (\<forall>a. a < next_free h \<and> theta \<noteq> Some (Array a) \<and> phi \<noteq> Some (Array a)
            \<longrightarrow> cells h' a = cells h a)
    \<and> (\<forall>b. phi = Some (Array b) \<longrightarrow> phi' = Some (Array b))
    \<and> (\<forall>a. theta = Some (Array a)
            \<longrightarrow> theta' = Some (Array a) \<or> theta' = Some (Array (next_free h))))
   \<and> (eleadj h t = Some (Inr (g1, t')) \<longrightarrow>
        (\<forall>a. a < next_free h \<and> t \<noteq> Array a \<longrightarrow> cells g1 a = cells h a))
   \<and> (aziadj h p = Some (Inr (g2, p')) \<longrightarrow>
        (\<forall>a. a < next_free h \<and> p \<noteq> Array a \<longrightarrow> cells g2 a = cells h a)
        \<and> (\<forall>b. p = Array b \<longrightarrow> p' = Some (Array b)))"
proof (intro conjI impI)
  assume s: "sphadj h theta phi theta_min theta_max phi_min phi_max = Some (Inr (h', theta', phi'))"
  note f = sphadj_frame[OF s]
  show "\<forall>a. a < next_free h \<and> theta \<noteq> Some (Array a) \<and> phi \<noteq> Some (Array a)
            \<longrightarrow> cells h' a = cells h a"
    using f(1) by (auto simp: untouched_def addrs_def split: option.splits pyval.splits)
  show "\<forall>b. phi = Some (Array b) \<longrightarrow> phi' = Some (Array b)" using f(2) .
  show "\<forall>a. theta = Some (Array a)
            \<longrightarrow> theta' = Some (Array a) \<or> theta' = Some (Array (next_free h))" using f(3) .
next
  assume "eleadj h t = Some (Inr (g1, t'))"
  then obtain x where "sphadj_default h (Some t) None = Some (Inr (g1, t', x))"
    by (auto simp: eleadj_def split: option.splits sum.splits)
  from sphadj_frame(1)[OF this[unfolded sphadj_default_def]]
  show "\<forall>a. a < next_free h \<and> t \<noteq> Array a \<longrightarrow> cells g1 a = cells h a"
    by (auto simp: untouched_def addrs_def split: pyval.splits)
next
  assume "aziadj h p = Some (Inr (g2, p'))"
  then obtain x where x: "sphadj_default h None (Some p) = Some (Inr (g2, x, p'))"
    by (auto simp: aziadj_def split: option.splits sum.splits)
  note f = sphadj_frame[OF x[unfolded sphadj_default_def]]
  show "\<forall>a. a < next_free h \<and> p \<noteq> Array a \<longrightarrow> cells g2 a = cells h a"
    using f(1) by (auto simp: untouched_def addrs_def split: pyval.splits)
  show "\<forall>b. p = Array b \<longrightarrow> p' = Some (Array b)" using f(2) by simp
qed

text \<open>
  The statement at a store of two arrays, \<open>[7]\<close> and \<open>[4]\<close>, the second passed as \<open>phi\<close>: the
  first is kept, the second is returned as the same object.
\<close>

theorem sphadj_writes_only_its_array_arguments_witness:
  "aziadj (heap2 [7] [4]) (Array 1) = Some (Inr (heap2 [7] [4 - 2 * pi], Some (Array 1)))
   \<and> (0::nat) < next_free (heap2 [7] [4]) \<and> Array 1 \<noteq> Array 0
   \<and> cells (heap2 [7] [4 - 2 * pi]) 0 = cells (heap2 [7] [4]) 0"
  using sphadj_writes_only_its_array_arguments
          [where h = "heap2 [7] [4]" and p = "Array 1" and ?g2.0 = "heap2 [7] [4 - 2 * pi]"
             and p' = "Some (Array 1)"]
    aziadj_example
  by (simp add: heap2_def)

text \<open>
  C9 as stated fails: the caller's array \<open>phi = [4]\<close> holds \<open>4 - 2 pi\<close> after the call.
\<close>

theorem sphadj_mutates_phi_counterexample:
  "sphadj_default (heap2 [0] [4]) (Some (Array 0)) (Some (Array 1))
     = Some (Inr (heap2 [0] [4 - 2 * pi], Some (Array 0), Some (Array 1)))
   \<and> cells (heap2 [0] [4 - 2 * pi]) 1 \<noteq> cells (heap2 [0] [4]) 1"
  using sphadj_example by (simp add: heap2_def)

lemma rsub_new_contents:
  "\<forall>b. p = Array b \<longrightarrow> b < next_free h \<Longrightarrow> contents (fst (rsub_new c h theta)) p = contents h p"
  by (cases theta; cases p) (auto simp: rsub_new_def contents_def)

lemma shift_all_zero: "0 \<in> set (contents h p) \<Longrightarrow> shift_all h (Some p) = (h, Some p)"
  by (auto simp: shift_all_def np_all_def list_all_iff)

lemma shift_where_zero: "0 \<in> set (contents h p) \<Longrightarrow> shift_where m h (Some p) = Inr h"
  by (auto simp: shift_where_def np_all_def list_all_iff)

lemma scalar_any_is_all: "list_ex P (contents h (Scalar t)) = list_all P (contents h (Scalar t))"
  by (simp add: contents_def)

lemma sphadj_theta_fold_all:
  assumes "0 \<in> set (contents h p)" and "\<forall>b. p = Array b \<longrightarrow> b < next_free h"
    and "rsub_new c h theta = (h1, theta1)"
  shows "(case shift_all h1 (Some p) of (h2, phi2) \<Rightarrow> Inr (h2, theta1, phi2))
           = (Inr (h1, theta1, Some p) :: error + heap \<times> pyval \<times> pyval option)"
    and "contents h1 p = contents h p"
proof -
  show c: "contents h1 p = contents h p"
    using rsub_new_contents[OF assms(2), where c = c and theta = theta] assms(3) by simp
  then have "0 \<in> set (contents h1 p)" using assms(1) by simp
  then show "(case shift_all h1 (Some p) of (h2, phi2) \<Rightarrow> Inr (h2, theta1, phi2))
           = (Inr (h1, theta1, Some p) :: error + heap \<times> pyval \<times> pyval option)"
    by (simp add: shift_all_zero)
qed

lemma sphadj_theta_fold_some:
  assumes "0 \<in> set (contents h p)" and "p \<noteq> Array a"
  shows "\<exists>h1. (case update_where (map q (cells h a)) f h a of
                  Inl e \<Rightarrow> Inl e
                | Inr h1 \<Rightarrow>
                    (case shift_where (map q' (cells h1 a)) h1 (Some p) of
                       Inl e \<Rightarrow> Inl e
                     | Inr h2 \<Rightarrow> Inr (h2, Array a, Some p)))
           = (Inr (h1, Array a, Some p) :: error + heap \<times> pyval \<times> pyval option)
         \<and> contents h1 p = contents h p"
proof -
  let ?h1 = "fst (put h (Array a) (map (\<lambda>x. if q x then f x else x) (cells h a)))"
  have c: "contents ?h1 p = contents h p"
    using assms(2) by (cases p) (auto simp: contents_def put_def)
  then have "0 \<in> set (contents ?h1 p)" using assms(1) by simp
  then show ?thesis using c by (simp add: update_where_self shift_where_zero)
qed

text \<open>
  C10. In the elevation block of \<open>sphadj\<close>, when an azimuth \<open>phi\<close> is supplied (not
  sharing its array with \<open>theta\<close>) and some entry of \<open>phi\<close> is exactly 0, the block returns
  \<open>phi\<close> with every entry as it was: no entry is shifted by \<open>pi\<close>, whatever was folded in
  \<open>theta\<close>. So the shift happens only if every entry of \<open>phi\<close> is nonzero.
\<close>

theorem sphadj_theta_zero_azimuth_never_shifted:
  assumes "0 \<in> set (contents h p)"
    and "\<forall>a. theta = Array a \<longrightarrow> p \<noteq> Array a"
    and "\<forall>b. p = Array b \<longrightarrow> b < next_free h"
  shows "\<exists>h' theta'. sphadj_theta h theta (Some p) theta_min theta_max = Inr (h', theta', Some p)
           \<and> contents h' p = contents h p"
proof -
  let ?xs = "contents h theta"
  consider (up) "list_all (\<lambda>t. theta_max \<le> t) ?xs"
    | (down) "\<not> list_all (\<lambda>t. theta_max \<le> t) ?xs" "list_all (\<lambda>t. t < theta_min) ?xs"
    | (some_up) "\<not> list_all (\<lambda>t. theta_max \<le> t) ?xs" "\<not> list_all (\<lambda>t. t < theta_min) ?xs"
                "list_ex (\<lambda>t. theta_max \<le> t) ?xs"
    | (some_down) "\<not> list_all (\<lambda>t. theta_max \<le> t) ?xs" "\<not> list_all (\<lambda>t. t < theta_min) ?xs"
                "\<not> list_ex (\<lambda>t. theta_max \<le> t) ?xs" "list_ex (\<lambda>t. t < theta_min) ?xs"
    | (none) "\<not> list_all (\<lambda>t. theta_max \<le> t) ?xs" "\<not> list_all (\<lambda>t. t < theta_min) ?xs"
                "\<not> list_ex (\<lambda>t. theta_max \<le> t) ?xs" "\<not> list_ex (\<lambda>t. t < theta_min) ?xs"
    by blast
  then show ?thesis
  proof cases
    case up
    obtain h1 theta1 where r: "rsub_new pi h theta = (h1, theta1)" by (cases "rsub_new pi h theta")
    from sphadj_theta_fold_all[OF assms(1,3) r] up r show ?thesis
      by (simp add: sphadj_theta_def)
  next
    case down
    obtain h1 theta1 where r: "rsub_new (- pi) h theta = (h1, theta1)"
      by (cases "rsub_new (- pi) h theta")
    from sphadj_theta_fold_all[OF assms(1,3) r] down r show ?thesis
      by (simp add: sphadj_theta_def)
  next
    case some_up
    then obtain a where a: "theta = Array a"
      using scalar_any_is_all[where P = "\<lambda>t. theta_max \<le> t" and h = h] by (cases theta) auto
    then have "p \<noteq> Array a" using assms(2) by simp
    from sphadj_theta_fold_some[OF assms(1) this, where q = "\<lambda>t. theta_max \<le> t"
        and f = "\<lambda>t. pi - t" and q' = "\<lambda>t. theta_max \<le> t"]
    show ?thesis using some_up a by (auto simp: sphadj_theta_def)
  next
    case some_down
    then obtain a where a: "theta = Array a"
      using scalar_any_is_all[where P = "\<lambda>t. t < theta_min" and h = h] by (cases theta) auto
    then have "p \<noteq> Array a" using assms(2) by simp
    from sphadj_theta_fold_some[OF assms(1) this, where q = "\<lambda>t. t < theta_min"
        and f = "\<lambda>t. - pi - t" and q' = "\<lambda>t. t < theta_min"]
    show ?thesis using some_down a by (auto simp: sphadj_theta_def)
  next
    case none
    then show ?thesis by (simp add: sphadj_theta_def)
  qed
qed

text \<open>
  The statement at \<open>theta = [2, 3]\<close>, both entries above \<open>pi / 2\<close> and folded, and
  \<open>phi = [0, 1]\<close>: the nonzero azimuth 1 is not shifted either.
\<close>

theorem sphadj_theta_zero_azimuth_never_shifted_witness:
  "0 \<in> set (contents (heap2 [2, 3] [0, 1]) (Array 1))
   \<and> list_all (\<lambda>t. pi / 2 \<le> t) (contents (heap2 [2, 3] [0, 1]) (Array 0))
   \<and> (\<exists>h' theta'.
         sphadj_theta (heap2 [2, 3] [0, 1]) (Array 0) (Some (Array 1)) (- (pi / 2)) (pi / 2)
           = Inr (h', theta', Some (Array 1))
       \<and> contents h' (Array 1) = [0, 1])"
proof -
  have z: "0 \<in> set (contents (heap2 [2, 3] [0, 1]) (Array 1))"
    by (simp add: contents_def heap2_def)
  have a: "\<forall>a. Array 0 = Array a \<longrightarrow> Array 1 \<noteq> Array a" by simp
  have b: "\<forall>b. Array 1 = Array b \<longrightarrow> b < next_free (heap2 [2, 3] [0, 1])"
    by (simp add: heap2_def)
  have c: "list_all (\<lambda>t. pi / 2 \<le> t) (contents (heap2 [2, 3] [0, 1]) (Array 0))"
    using pi_less_4 by (simp add: contents_def heap2_def)
  have d: "contents (heap2 [2, 3] [0, 1]) (Array 1) = [0, 1]"
    by (simp add: contents_def heap2_def)
  from sphadj_theta_zero_azimuth_never_shifted[OF z a b, where theta_min = "- (pi / 2)"
      and theta_max = "pi / 2"] z c
  show ?thesis unfolding d by blast
qed

text \<open>
  C4, evaluated where it fails. With \<open>theta = [2, 0]\<close> and \<open>phi = [1, 1]\<close> the entry 2 is
  folded to \<open>pi - 2\<close>, but the mask for \<open>phi\<close> is computed from the folded \<open>theta\<close>, where no
  entry is out of bounds any more: \<open>phi\<close> stays \<open>[1, 1]\<close> instead of becoming \<open>[1 + pi, 1]\<close>.
  With \<open>theta = [2, -2, 0]\<close> only the entry above the upper bound is folded; \<open>-2\<close> stays.
\<close>

theorem sphadj_theta_partial_fold_leaves_phi:
  "sphadj_theta (heap2 [2, 0] [1, 1]) (Array 0) (Some (Array 1)) (- (pi / 2)) (pi / 2)
     = Inr (heap2 [pi - 2, 0] [1, 1], Array 0, Some (Array 1))
   \<and> sphadj_theta (heap2 [2, - 2, 0] [1, 1, 1]) (Array 0) (Some (Array 1)) (- (pi / 2)) (pi / 2)
     = Inr (heap2 [pi - 2, - 2, 0] [1, 1, 1], Array 0, Some (Array 1))"
  using pi_less_4 pi_ge_two
  by (simp add: sphadj_theta_def contents_def heap2_def update_where_def shift_where_def
        np_all_def fun_upd_twist)

subsection \<open>\<^verbatim>\<open>vec2sph\<close> on a single vector\<close>

lemma arctan2_bounds: "- pi < arctan2 y x \<and> arctan2 y x \<le> pi"
proof -
  have b: "- (pi / 2) < arctan (y / x)" "arctan (y / x) < pi / 2"
    using arctan_bounded[of "y / x"] by simp_all
  consider "0 < x" | "x < 0" "0 \<le> y" | "x < 0" "y < 0" | "x = 0" by linarith
  then show ?thesis
  proof cases
    case 1
    then show ?thesis using b by (simp add: arctan2_def)
  next
    case 2
    then have "y / x \<le> 0" by (simp add: divide_nonneg_neg)
    then have "arctan (y / x) \<le> 0" using arctan_le_zero_iff by blast
    then show ?thesis using 2 b by (simp add: arctan2_def)
  next
    case 3
    then have "0 < y / x" by (simp add: divide_neg_neg)
    then have "0 < arctan (y / x)" using zero_less_arctan_iff by blast
    then show ?thesis using 3 b by (simp add: arctan2_def)
  next
    case 4
    then have "arctan2 y x = pi / 2 \<or> arctan2 y x = - (pi / 2) \<or> arctan2 y x = 0"
      by (simp add: arctan2_def)
    then show ?thesis using pi_gt_zero by (elim disjE; linarith)
  qed
qed

lemma norm3_nonneg: "0 \<le> norm3 v"
  by (cases v) (simp add: norm3_def)

lemma norm3_zero_iff: "norm3 (x, y, z) = 0 \<longleftrightarrow> x = 0 \<and> y = 0 \<and> z = 0"
proof -
  have "x\<^sup>2 + y\<^sup>2 + z\<^sup>2 = 0 \<longleftrightarrow> x = 0 \<and> y = 0 \<and> z = 0"
    by (smt (verit) zero_le_power2 power2_eq_iff_nonneg power_zero_numeral zero_eq_power2)
  then show ?thesis by (simp add: norm3_def)
qed

lemma norm3_ge_z: "\<bar>z\<bar> \<le> norm3 (x, y, z)"
proof -
  have "z\<^sup>2 \<le> x\<^sup>2 + y\<^sup>2 + z\<^sup>2" by simp
  then have "sqrt (z\<^sup>2) \<le> sqrt (x\<^sup>2 + y\<^sup>2 + z\<^sup>2)" by (rule real_sqrt_le_mono)
  then show ?thesis by (simp add: norm3_def)
qed

text \<open>The radius that \<^verbatim>\<open>vec2sph\<close> divides by.\<close>

lemma guarded_radius:
  assumes rho: "rho = (if norm3 (x, y, z) = 0 then 1 else norm3 (x, y, z))"
  shows "0 < rho" and "- 1 \<le> z / rho" and "z / rho \<le> 1"
    and "z / rho = 1 \<Longrightarrow> x = 0 \<and> y = 0"
proof -
  show p: "0 < rho"
    using norm3_nonneg[of "(x, y, z)"] by (simp add: rho)
  have a: "\<bar>z\<bar> \<le> rho"
  proof (cases "norm3 (x, y, z) = 0")
    case True
    then show ?thesis by (simp add: rho norm3_zero_iff)
  next
    case False
    then show ?thesis using norm3_ge_z[of z x y] by (simp add: rho)
  qed
  show "- 1 \<le> z / rho" "z / rho \<le> 1" using a p by (simp_all add: field_simps abs_le_iff)
  show "x = 0 \<and> y = 0" if "z / rho = 1"
  proof (cases "norm3 (x, y, z) = 0")
    case True
    then show ?thesis by (simp add: norm3_zero_iff)
  next
    case False
    let ?S = "x\<^sup>2 + y\<^sup>2 + z\<^sup>2"
    have "rho = z" using that p by (simp add: field_simps)
    then have "sqrt ?S = z" using False rho by (simp add: norm3_def)
    then have "(sqrt ?S)\<^sup>2 = z\<^sup>2" by simp
    moreover have "(sqrt ?S)\<^sup>2 = ?S" by (rule real_sqrt_pow2) simp
    ultimately have "x\<^sup>2 + y\<^sup>2 = 0" by simp
    then show ?thesis by simp
  qed
qed

lemma sphadj_theta_scalar:
  assumes "- (pi / 2) \<le> t" "t \<le> pi / 2" "t = pi / 2 \<longrightarrow> p = 0"
  shows "sphadj_theta h (Scalar t) (Some (Scalar p)) (- (pi / 2)) (pi / 2)
           = Inr (h, Scalar t, Some (Scalar p))"
proof (cases "t = pi / 2")
  case True
  then show ?thesis using assms(3)
    by (simp add: sphadj_theta_def contents_def rsub_new_def shift_all_def np_all_def)
next
  case False
  then show ?thesis using assms(1,2)
    by (intro sphadj_theta_in_range) (simp_all add: contents_def)
qed

text \<open>Where \<^verbatim>\<open>la.norm\<close> is the norm, \<^verbatim>\<open>vec2sph\<close> returns the spherical coordinates.\<close>

lemma vec2sph_single:
  assumes rho: "rho = (if norm3 (x, y, z) = 0 then 1 else norm3 (x, y, z))"
    and la: "la_norm (x, y, z) = Inr (norm3 (x, y, z))"
  shows "vec2sph (Single (x, y, z))
     = Some (Inr (Single (pi / 2 - arccos (z / rho),
                          py_fmod (arctan2 (x / rho) (y / rho) + pi) (2 * pi) - pi,
                          rho)))"
proof -
  note g = guarded_radius[OF rho]
  let ?t = "pi / 2 - arccos (z / rho)" and ?p = "arctan2 (x / rho) (y / rho)"
  have d: "div3 (x, y, z) (rho, rho, rho) = Inr (x / rho, y / rho, z / rho)"
    using g(1) by (simp add: div3_def np_div_def)
  have r: "raw_angles (x / rho, y / rho, z / rho) = Inr (?t, ?p)"
    using g(2,3) by (simp add: raw_angles_def np_arccos_def)
  have ab: "0 \<le> arccos (z / rho)" "arccos (z / rho) \<le> pi"
    using arccos_bounded[OF g(2,3)] by simp_all
  have pole: "?t = pi / 2 \<longrightarrow> ?p = 0"
  proof
    assume "?t = pi / 2"
    then have "arccos (z / rho) = 0" by simp
    then have "cos (arccos (z / rho)) = 1" by simp
    then have "z / rho = 1" using g(2,3) by simp
    then have "x = 0 \<and> y = 0" by (rule g(4))
    then show "?p = 0" by (simp add: arctan2_def)
  qed
  have t: "sphadj_theta empty_heap (Scalar ?t) (Some (Scalar ?p)) (- (pi / 2)) (pi / 2)
             = Inr (empty_heap, Scalar ?t, Some (Scalar ?p))"
    using ab pole by (intro sphadj_theta_scalar) simp_all
  have p: "sphadj_phi empty_heap (Scalar ?p) (- pi) pi
             = Some (Inr (empty_heap, Scalar (py_fmod (?p + pi) (2 * pi) - pi)))"
  proof -
    have "(4::real) \<le> 2 ^ 49" by simp
    then have "\<bar>?p\<bar> \<le> 2 ^ 49" "\<bar>- pi\<bar> \<le> 2 ^ 49"
      using arctan2_bounds[of "x / rho" "y / rho"] pi_less_4 pi_gt_zero by linarith+
    from sphadj_phi_scalar_2pi[OF this] show ?thesis by simp
  qed
  have s: "sphadj_default empty_heap (Some (Scalar ?t)) (Some (Scalar ?p))
             = Some (Inr (empty_heap, Some (Scalar ?t), Some (Scalar (py_fmod (?p + pi) (2 * pi) - pi))))"
    by (simp only: sphadj_default_def sphadj_with_theta t p sum.case prod.case option.case)
  show ?thesis
    by (simp only: vec2sph.simps la Let_def rho[symmetric] d r s sum.case prod.case option.case
          asarrayT.simps)
qed

lemma fold_id: "- pi \<le> x \<Longrightarrow> x < pi \<Longrightarrow> py_fmod (x + pi) (2 * pi) - pi = x"
  by (rule fold_unique[where k = 0]) simp_all

lemma vec2sph_zero: "vec2sph (Single (0, 0, 0)) = Some (Inr (Single (0, 0, 1)))"
proof -
  have "(1::real) = (if norm3 (0, 0, 0) = 0 then 1 else norm3 (0, 0, 0))"
    by (simp add: norm3_def)
  note v = vec2sph_single[OF this la_norm_safe]
  have a: "arctan2 (0 / 1) (0 / 1) = 0" by (simp add: arctan2_def)
  have f: "py_fmod (0 + pi) (2 * pi) - pi = 0" by (rule fold_id) simp_all
  show ?thesis using v unfolding a f by (simp del: vec2sph.simps)
qed




text \<open>
  C8. \<open>vec2sph\<close> maps the single vector \<open>(1, 0, 0)\<close> to \<open>theta = 0\<close>, \<open>phi = pi/2\<close>, \<open>rho = 1\<close>, and
  \<open>sph2vec\<close> maps that triple back to \<open>(1, 0, 0)\<close>: the azimuth is measured from the y axis,
  \<open>sph2vec\<close> computing \<open>x = rho sin(phi) cos(theta)\<close>, \<open>y = rho cos(phi) cos(theta)\<close>,
  \<open>z = rho sin(theta)\<close>.
\<close>

theorem vec2sph_unit_x:
  "vec2sph (Single (1, 0, 0)) = Some (Inr (Single (0, pi / 2, 1)))
   \<and> sph2vec (Single (0, pi / 2, 1)) = Single (1, 0, 0)
   \<and> sph2vec (Single (theta, phi, rho))
        = Single (rho * (sin phi * cos theta), rho * (cos phi * cos theta), rho * sin theta)"
proof (intro conjI)
  have "(1::real) = (if norm3 (1, 0, 0) = 0 then 1 else norm3 (1, 0, 0))"
    by (simp add: norm3_def)
  moreover have "la_norm (1, 0, 0) = Inr (norm3 (1, 0, 0))"
    by (rule la_norm_safe) simp_all
  ultimately have v: "vec2sph (Single (1, 0, 0))
     = Some (Inr (Single (pi / 2 - arccos (0 / 1),
                          py_fmod (arctan2 (1 / 1) (0 / 1) + pi) (2 * pi) - pi, 1)))"
    by (rule vec2sph_single)
  have a: "arctan2 (1 / 1) (0 / 1) = pi / 2" by (simp add: arctan2_def)
  have f: "py_fmod (pi / 2 + pi) (2 * pi) - pi = pi / 2"
    using pi_gt_zero by (intro fold_id) simp_all
  show "vec2sph (Single (1, 0, 0)) = Some (Inr (Single (0, pi / 2, 1)))"
    using v unfolding a f by (simp del: vec2sph.simps)
  show "sph2vec (Single (0, pi / 2, 1)) = Single (1, 0, 0)"
    by (simp add: sph2vec_row_def)
  show "sph2vec (Single (theta, phi, rho))
        = Single (rho * (sin phi * cos theta), rho * (cos phi * cos theta), rho * sin theta)"
    by (simp add: sph2vec_row_def)
qed

subsection \<open>The round trip on a single vector\<close>

lemma sqrt_one_plus_quotient:
  assumes "b \<noteq> 0"
  shows "sqrt (1 + (a / b)\<^sup>2) = sqrt (a\<^sup>2 + b\<^sup>2) / \<bar>b\<bar>"
proof -
  have "1 + (a / b)\<^sup>2 = (a\<^sup>2 + b\<^sup>2) / b\<^sup>2"
    using assms by (simp add: field_simps power2_eq_square)
  then show ?thesis by (simp add: real_sqrt_divide)
qed

lemma sin_cos_arctan2:
  assumes "a \<noteq> 0 \<or> b \<noteq> 0"
  shows "sin (arctan2 a b) = a / sqrt (a\<^sup>2 + b\<^sup>2)"
    and "cos (arctan2 a b) = b / sqrt (a\<^sup>2 + b\<^sup>2)"
proof -
  let ?r = "sqrt (a\<^sup>2 + b\<^sup>2)"
  have r: "0 < ?r" using assms by (simp add: sum_power2_gt_zero_iff)
  have "sin (arctan2 a b) = a / ?r \<and> cos (arctan2 a b) = b / ?r"
  proof -
    consider "0 < b" | "b < 0" | "b = 0" "0 < a" | "b = 0" "a < 0" using assms by linarith
    then show ?thesis
    proof cases
      case 1
      then have q: "sqrt (1 + (a / b)\<^sup>2) = ?r / b" using sqrt_one_plus_quotient[of b a] by simp
      have "arctan2 a b = arctan (a / b)" using 1 by (simp add: arctan2_def)
      then show ?thesis using 1 r by (simp add: sin_arctan cos_arctan q)
    next
      case 2
      then have q: "sqrt (1 + (a / b)\<^sup>2) = ?r / (- b)" using sqrt_one_plus_quotient[of b a] by simp
      have s: "sin (arctan (a / b)) = - (a / ?r)" "cos (arctan (a / b)) = - (b / ?r)"
        using 2 r by (simp_all add: sin_arctan cos_arctan q)
      have "arctan2 a b = arctan (a / b) + pi \<or> arctan2 a b = arctan (a / b) - pi"
        using 2 by (simp add: arctan2_def)
      then show ?thesis
      proof
        assume e: "arctan2 a b = arctan (a / b) + pi"
        show ?thesis unfolding e sin_periodic_pi cos_periodic_pi s by simp
      next
        assume e: "arctan2 a b = arctan (a / b) - pi"
        show ?thesis unfolding e sin_minus_pi cos_minus_pi s by simp
      qed
    next
      case 3
      then show ?thesis by (simp add: arctan2_def)
    next
      case 4
      then show ?thesis by (simp add: arctan2_def)
    qed
  qed
  then show "sin (arctan2 a b) = a / ?r" and "cos (arctan2 a b) = b / ?r" by simp_all
qed

lemma sin_cos_fold:
  "sin (py_fmod (x + pi) (2 * pi) - pi) = sin x" "cos (py_fmod (x + pi) (2 * pi) - pi) = cos x"
  using sin_cos_eq_iff[of "py_fmod (x + pi) (2 * pi) - pi" x] fold_cong[of x] by blast+

lemma sph2vec_row_inverts:
  assumes rho: "0 < rho" and unit: "a\<^sup>2 + b\<^sup>2 + c\<^sup>2 = 1"
  shows "sph2vec_row (pi / 2 - arccos c, py_fmod (arctan2 a b + pi) (2 * pi) - pi, rho)
           = (rho * a, rho * b, rho * c)"
proof -
  have c: "- 1 \<le> c" "c \<le> 1" "\<bar>c\<bar> \<le> 1"
  proof -
    have "c\<^sup>2 \<le> 1" using unit by (smt (verit) zero_le_power2)
    then show "\<bar>c\<bar> \<le> 1" by (simp add: abs_square_le_1)
    then show "- 1 \<le> c" "c \<le> 1" by simp_all
  qed
  have st: "sin (pi / 2 - arccos c) = c" using c(1,2) by (simp add: sin_diff)
  have "1 - c\<^sup>2 = a\<^sup>2 + b\<^sup>2" using unit by simp
  then have ct: "cos (pi / 2 - arccos c) = sqrt (a\<^sup>2 + b\<^sup>2)"
    using c(3) by (simp add: cos_diff sin_arccos_abs)
  have xy: "sin (arctan2 a b) * sqrt (a\<^sup>2 + b\<^sup>2) = a \<and> cos (arctan2 a b) * sqrt (a\<^sup>2 + b\<^sup>2) = b"
  proof (cases "a = 0 \<and> b = 0")
    case True
    then show ?thesis by (simp add: arctan2_def)
  next
    case False
    then have n: "a \<noteq> 0 \<or> b \<noteq> 0" by blast
    then have "sqrt (a\<^sup>2 + b\<^sup>2) \<noteq> 0" by simp
    then show ?thesis using sin_cos_arctan2[OF n] by simp
  qed
  show ?thesis
    unfolding sph2vec_row_def prod.case sin_cos_fold st ct using xy by simp
qed

lemma roundtrip_single:
  assumes "norm3 (x, y, z) \<noteq> 0" and la: "la_norm (x, y, z) = Inr (norm3 (x, y, z))"
  shows "roundtrip (Single (x, y, z)) = Some (Inr (Single (x, y, z)))"
proof -
  define rho where "rho = norm3 (x, y, z)"
  have r: "rho = (if norm3 (x, y, z) = 0 then 1 else norm3 (x, y, z))"
    using assms(1) by (simp add: rho_def)
  have p: "0 < rho" using guarded_radius(1)[OF r] .
  have sq: "x\<^sup>2 + y\<^sup>2 + z\<^sup>2 = rho\<^sup>2" by (simp add: rho_def norm3_def)
  have "(x / rho)\<^sup>2 + (y / rho)\<^sup>2 + (z / rho)\<^sup>2 = (x\<^sup>2 + y\<^sup>2 + z\<^sup>2) / rho\<^sup>2"
    by (simp add: power_divide add_divide_distrib)
  also have "\<dots> = 1" unfolding sq using p by simp
  finally have "(x / rho)\<^sup>2 + (y / rho)\<^sup>2 + (z / rho)\<^sup>2 = 1" .
  from sph2vec_row_inverts[OF p this] p
  have "sph2vec_row (pi / 2 - arccos (z / rho),
                     py_fmod (arctan2 (x / rho) (y / rho) + pi) (2 * pi) - pi, rho) = (x, y, z)"
    by simp
  then show ?thesis
    unfolding roundtrip_def vec2sph_single[OF r la] by simp
qed

subsection \<open>A batch of one vector agrees with the single vector\<close>

lemma vec2sph_batch_of_one:
  assumes rho: "rho = (if norm3 (x, y, z) = 0 then 1 else norm3 (x, y, z))"
    and la: "la_norm (x, y, z) = Inr (norm3 (x, y, z))"
  shows "vec2sph (Batch [(x, y, z)])
     = Some (Inr (Batch [(pi / 2 - arccos (z / rho),
                          py_fmod (arctan2 (x / rho) (y / rho) + pi) (2 * pi) - pi,
                          rho)]))"
proof -
  note g = guarded_radius[OF rho]
  let ?t = "pi / 2 - arccos (z / rho)" and ?p = "arctan2 (x / rho) (y / rho)"
  let ?p' = "py_fmod (?p + pi) (2 * pi) - pi"
  let ?h = "heap2 [?t] [?p]"
  have d: "div_rows [(x, y, z)] [rho] = Inr [(x / rho, y / rho, z / rho)]"
    using g(1) by (simp add: div_rows_def div3_def np_div_def)
  have r: "sequence_sum (map raw_angles [(x / rho, y / rho, z / rho)]) = Inr [(?t, ?p)]"
    using g(2,3) by (simp add: raw_angles_def np_arccos_def)
  have ab: "0 \<le> arccos (z / rho)" "arccos (z / rho) \<le> pi"
    using arccos_bounded[OF g(2,3)] by simp_all
  have "(4::real) \<le> 2 ^ 49" by simp
  then have b: "\<bar>?p\<bar> \<le> 2 ^ 49" "\<bar>- pi\<bar> \<le> 2 ^ 49"
    using arctan2_bounds[of "x / rho" "y / rho"] pi_less_4 pi_gt_zero by linarith+
  have "\<exists>h' a. sphadj_default ?h (Some (Array 0)) (Some (Array 1))
                  = Some (Inr (h', Some (Array a), Some (Array 1)))
              \<and> cells h' a = [?t] \<and> cells h' 1 = [?p']"
  proof (cases "?t = pi / 2")
    case False
    have t: "sphadj_theta ?h (Array 0) (Some (Array 1)) (- (pi / 2)) (pi / 2)
               = Inr (?h, Array 0, Some (Array 1))"
      using False ab by (intro sphadj_theta_in_range) (simp_all add: contents_def heap2_def)
    have "cells ?h 1 \<noteq> []" "\<forall>x\<in>set (cells ?h 1). \<bar>x\<bar> \<le> 2 ^ 49"
      using b(1) by (simp_all add: heap2_def)
    from sphadj_phi_array_2pi[OF this b(2)]
    have p: "sphadj_phi ?h (Array 1) (- pi) pi = Some (Inr (heap2 [?t] [?p'], Array 1))"
      by (simp add: put_def heap2_def)
    have "sphadj_default ?h (Some (Array 0)) (Some (Array 1))
            = Some (Inr (heap2 [?t] [?p'], Some (Array 0), Some (Array 1)))"
      by (simp only: sphadj_default_def sphadj_with_theta t p sum.case prod.case option.case)
    moreover have "cells (heap2 [?t] [?p']) 0 = [?t]" "cells (heap2 [?t] [?p']) 1 = [?p']"
      by (simp_all add: heap2_def)
    ultimately show ?thesis by blast
  next
    case True
    then have "arccos (z / rho) = 0" by simp
    then have "cos (arccos (z / rho)) = 1" by simp
    then have "z / rho = 1" using g(2,3) by simp
    then have "x = 0 \<and> y = 0" by (rule g(4))
    then have p0: "?p = 0" by (simp add: arctan2_def)
    let ?h1 = "\<lparr>cells = (\<lambda>a. [])(0 := [?t], 1 := [?p], 2 := [?t]), next_free = 3\<rparr>"
    have t: "sphadj_theta ?h (Array 0) (Some (Array 1)) (- (pi / 2)) (pi / 2)
               = Inr (?h1, Array 2, Some (Array 1))"
      unfolding p0 True
      by (simp add: sphadj_theta_def contents_def heap2_def rsub_new_def shift_all_def np_all_def)
    have "cells ?h1 1 \<noteq> []" "\<forall>x\<in>set (cells ?h1 1). \<bar>x\<bar> \<le> 2 ^ 49"
      using b(1) by simp_all
    from sphadj_phi_array_2pi[OF this b(2)]
    obtain h' where p: "sphadj_phi ?h1 (Array 1) (- pi) pi = Some (Inr (h', Array 1))"
      and c: "cells h' 2 = [?t]" "cells h' 1 = [?p']"
      by (simp add: put_def)
    have "sphadj_default ?h (Some (Array 0)) (Some (Array 1))
            = Some (Inr (h', Some (Array 2), Some (Array 1)))"
      by (simp only: sphadj_default_def sphadj_with_theta t p sum.case prod.case option.case)
    then show ?thesis using c by blast
  qed
  then obtain h' a where
    s: "sphadj_default (heap2 (map fst [(?t, ?p)]) (map snd [(?t, ?p)])) (Some (Array 0)) (Some (Array 1))
          = Some (Inr (h', Some (Array a), Some (Array 1)))"
    and c: "cells h' a = [?t]" "cells h' 1 = [?p']"
    by auto
  have n: "sequence_sum (map la_norm [(x, y, z)]) = Inr [norm3 (x, y, z)]"
    by (simp add: la)
  have l: "map (\<lambda>n. if n = 0 then 1 else n) [norm3 (x, y, z)] = [rho]"
    using rho by simp
  have len: "\<not> (length [(x, y, z)] \<noteq> 3 \<and> length [(x, y, z)] \<noteq> 1)" by simp
  have "asarrayT h' (Some (Array a)) (Some (Array 1)) (Ar [rho]) = Inr (Batch [(?t, ?p', rho)])"
    using c by simp
  then show ?thesis
    by (simp only: vec2sph.simps len if_False n Let_def l d r s sum.case prod.case option.case)
qed

lemma vec2sph_batch_of_one_agrees:
  assumes "la_norm v = Inr (norm3 v)"
  shows "vec2sph (Single v) = Some (Inr (Single s)) \<longleftrightarrow> vec2sph (Batch [v]) = Some (Inr (Batch [s]))"
proof (cases v)
  case (fields x y z)
  define rho where "rho = (if norm3 (x, y, z) = 0 then 1 else norm3 (x, y, z))"
  have la: "la_norm (x, y, z) = Inr (norm3 (x, y, z))" using assms fields by simp
  show ?thesis
    unfolding fields vec2sph_single[OF rho_def la] vec2sph_batch_of_one[OF rho_def la] by simp
qed

subsection \<open>\<^verbatim>\<open>vec2sph\<close> on a batch\<close>

lemma norm3_axis [simp]:
  "norm3 (1, 0, 0) = 1" "norm3 (0, 1, 0) = 1" "norm3 (0, 0, 1) = 1" "norm3 (0, 0, 2) = 2"
  by (simp_all add: norm3_def)

lemma la_norm_axis [simp]:
  "la_norm (1, 0, 0) = Inr 1" "la_norm (0, 1, 0) = Inr 1" "la_norm (0, 0, 1) = Inr 1"
  "la_norm (0, 0, 2) = Inr 2"
proof -
  have "la_norm (1, 0, 0) = Inr (norm3 (1, 0, 0))" by (rule la_norm_safe) simp_all
  then show "la_norm (1, 0, 0) = Inr 1" by simp
  have "la_norm (0, 1, 0) = Inr (norm3 (0, 1, 0))" by (rule la_norm_safe) simp_all
  then show "la_norm (0, 1, 0) = Inr 1" by simp
  have "la_norm (0, 0, 1) = Inr (norm3 (0, 0, 1))" by (rule la_norm_safe) simp_all
  then show "la_norm (0, 0, 1) = Inr 1" by simp
  have "la_norm (0, 0, 2) = Inr (norm3 (0, 0, 2))" by (rule la_norm_safe) simp_all
  then show "la_norm (0, 0, 2) = Inr 2" by simp
qed

text \<open>
  C2, evaluated where it fails. A batch of two vectors has shape \<open>(2, 3)\<close> and its norms
  have shape \<open>(2,)\<close>; \<^verbatim>\<open>vec / rho\<close> cannot broadcast them and \<open>vec2sph\<close> raises. A batch of
  three vectors is accepted, but each column is divided by the norm of the row of the
  same index: the row \<open>(0, 0, 2)\<close> is "normalised" to \<open>(0, 0, 2)\<close>, whose third component is
  outside the domain of \<open>arccos\<close>, although alone it is mapped to \<open>(pi/2, 0, 2)\<close>.
\<close>

theorem vec2sph_batch_of_two_raises:
  "vec2sph (Batch [(1, 0, 0), (0, 1, 0)]) = Some (Inl ValueError)
   \<and> vec2sph (Batch [(0, 0, 2), (1, 0, 0), (0, 1, 0)]) = Some (Inl NonFinite)
   \<and> vec2sph (Single (0, 0, 2)) = Some (Inr (Single (pi / 2, 0, 2)))"
proof (intro conjI)
  show "vec2sph (Batch [(1, 0, 0), (0, 1, 0)]) = Some (Inl ValueError)"
    by (simp add: div_rows_def)
  show "vec2sph (Batch [(0, 0, 2), (1, 0, 0), (0, 1, 0)]) = Some (Inl NonFinite)"
    by (simp add: div_rows_def div3_def np_div_def raw_angles_def np_arccos_def)
  have "(2::real) = (if norm3 (0, 0, 2) = 0 then 1 else norm3 (0, 0, 2))" by simp
  moreover have "la_norm (0, 0, 2) = Inr (norm3 (0, 0, 2))" by simp
  ultimately have v: "vec2sph (Single (0, 0, 2))
     = Some (Inr (Single (pi / 2 - arccos (2 / 2),
                          py_fmod (arctan2 (0 / 2) (0 / 2) + pi) (2 * pi) - pi, 2)))"
    by (rule vec2sph_single)
  have a: "arctan2 (0 / 2) (0 / 2) = 0" by (simp add: arctan2_def)
  have f: "py_fmod (0 + pi) (2 * pi) - pi = 0" by (rule fold_id) simp_all
  show "vec2sph (Single (0, 0, 2)) = Some (Inr (Single (pi / 2, 0, 2)))"
    using v unfolding a f by (simp del: vec2sph.simps)
qed

text \<open>
  C1, evaluated where it fails: on a batch of two direction vectors of norm 1 the
  round trip raises instead of returning the batch.
\<close>

theorem roundtrip_batch_of_two_raises:
  "norm3 (0, 0, 1) = 1
   \<and> roundtrip (Batch [(0, 0, 1), (0, 0, 1)]) = Some (Inl ValueError)
   \<and> roundtrip (Batch [(0, 0, 1), (0, 0, 1)]) \<noteq> Some (Inr (Batch [(0, 0, 1), (0, 0, 1)]))"
  by (simp add: roundtrip_def div_rows_def)

subsection \<open>\<^verbatim>\<open>vec2pol\<close>\<close>

text \<open>
  C6, evaluated where it fails. The packed call form returns \<open>atan2(y, x)\<close>. The
  two-argument call form returns \<open>atan2(x, y)\<close>: for \<open>x = 1\<close>, \<open>y = 0\<close> it returns \<open>pi/2\<close>,
  where \<open>atan2(y, x) = 0\<close>, and \<open>pol2vec\<close> maps its result to \<open>(0, 1)\<close>, not back to \<open>(1, 0)\<close>.
\<close>

theorem vec2pol_two_argument_form_swaps:
  "vec2pol (Ar [x, y]) None = Inr (Packed [sqrt (x\<^sup>2 + y\<^sup>2), arctan2 y x])
   \<and> vec2pol (Sc x) (Some (Sc y)) = Inr (Pair (Sc (sqrt (x\<^sup>2 + y\<^sup>2))) (Sc (arctan2 x y)))
   \<and> vec2pol (Sc 1) (Some (Sc 0)) = Inr (Pair (Sc 1) (Sc (pi / 2)))
   \<and> vec2pol (Ar [1, 0]) None = Inr (Packed [1, 0])
   \<and> arctan2 0 1 = 0
   \<and> pol2vec (Sc 1) (Some (Sc (pi / 2))) = Inr (Pair (Sc 0) (Sc 1))"
  by (simp add: vec2pol_def pol2vec_def bc_list_def arctan2_def)

end
